theory Spec2Isabelle
  imports Main "HOL-Library.FSet"
begin

section \<open>The BPMN analyzer: complexity score\<close>

text \<open>
  \<^verbatim>\<open>analyze-bpmn.js\<close>, class \<^verbatim>\<open>BPMNAnalyzer\<close>. The score reads four collections
  and one counter of the analyzer object. The entries of the collections do not matter to the
  score, only how many there are, so an entry is kept as the id it was recorded with;
  \<^verbatim>\<open>dataBindings\<close> is a JavaScript \<^verbatim>\<open>Set\<close> of strings. The numbers are
  lengths and a depth counter that starts at 0 and only takes a maximum with a count of open
  tags, so they are natural numbers.
\<close>

record analyzer =
  coachViews :: "string list"
  humanServices :: "string list"
  bpdProcesses :: "string list"
  serviceTasks :: "string list"
  dataBindings :: "string fset"
  maxNestingDepth :: nat

definition calculateComplexityScore :: "analyzer \<Rightarrow> nat" where
  "calculateComplexityScore a =
     (let componentScore = (length (coachViews a) + length (humanServices a)) * 2;
          nestingScore = maxNestingDepth a * 5;
          bindingScore = fcard (dataBindings a) * 1;
          serviceScore = length (serviceTasks a) * 3
      in componentScore + nestingScore + bindingScore + serviceScore)"

datatype tier = LOW | MEDIUM | HIGH | VERY_HIGH

definition tier_of_score :: "nat \<Rightarrow> tier" where
  "tier_of_score score =
     (if score < 50 then LOW
      else if score < 150 then MEDIUM
      else if score < 300 then HIGH
      else VERY_HIGH)"

fun tier_text :: "tier \<Rightarrow> string" where
  "tier_text LOW = ''LOW: Can be converted in a single pass''"
| "tier_text MEDIUM = ''MEDIUM: Recommend component-by-component conversion''"
| "tier_text HIGH = ''HIGH: Requires chunked processing and template generation''"
| "tier_text VERY_HIGH = ''VERY HIGH: Requires incremental migration with multiple templates''"

definition getComplexityRecommendation :: "analyzer \<Rightarrow> string" where
  "getComplexityRecommendation a = tier_text (tier_of_score (calculateComplexityScore a))"

text \<open>The four tiers in their order, lowest first.\<close>

fun tier_rank :: "tier \<Rightarrow> nat" where
  "tier_rank LOW = 0"
| "tier_rank MEDIUM = 1"
| "tier_rank HIGH = 2"
| "tier_rank VERY_HIGH = 3"

text \<open>The tier a recommendation text announces (the texts are pairwise different).\<close>

definition rank_of_text :: "string \<Rightarrow> nat" where
  "rank_of_text t =
     (if t = tier_text LOW then 0
      else if t = tier_text MEDIUM then 1
      else if t = tier_text HIGH then 2
      else 3)"

text \<open>One analyzer state has at least the inputs of another.\<close>

definition inputs_le :: "analyzer \<Rightarrow> analyzer \<Rightarrow> bool" where
  "inputs_le a b \<longleftrightarrow>
     length (coachViews a) \<le> length (coachViews b) \<and>
     length (humanServices a) \<le> length (humanServices b) \<and>
     length (bpdProcesses a) \<le> length (bpdProcesses b) \<and>
     length (serviceTasks a) \<le> length (serviceTasks b) \<and>
     fcard (dataBindings a) \<le> fcard (dataBindings b) \<and>
     maxNestingDepth a \<le> maxNestingDepth b"

section \<open>JavaScript values\<close>

text \<open>
  The values the extractor handles: \<^verbatim>\<open>undefined\<close>, strings, numbers (only counts occur),
  arrays and plain objects. An object is the list of its own properties in insertion order,
  which is the order \<^verbatim>\<open>Object.entries\<close> and \<^verbatim>\<open>JSON.stringify\<close> follow for
  keys that are not array indices (an XML name never is one). Strings are byte strings.
\<close>

datatype jsval =
    JUndefined
  | JStr string
  | JNum nat
  | JArr "jsval list"
  | JObj "(string \<times> jsval) list"

datatype exn = TypeError | RangeError

fun truthy :: "jsval \<Rightarrow> bool" where
  "truthy JUndefined = False"
| "truthy (JStr s) = (s \<noteq> [])"
| "truthy (JNum n) = (n \<noteq> 0)"
| "truthy (JArr xs) = True"
| "truthy (JObj kvs) = True"

text \<open>\<^verbatim>\<open>a || b\<close>\<close>

definition js_or :: "jsval \<Rightarrow> jsval \<Rightarrow> jsval" where
  "js_or a b = (if truthy a then a else b)"

text \<open>\<^verbatim>\<open>obj.k\<close> on an object without inherited property \<open>k\<close>.\<close>

definition get_prop :: "(string \<times> jsval) list \<Rightarrow> string \<Rightarrow> jsval" where
  "get_prop obj k = (case map_of obj k of None \<Rightarrow> JUndefined | Some v \<Rightarrow> v)"

definition NL :: string where
  "NL = [CHR 0x0A]"

fun join :: "string \<Rightarrow> string list \<Rightarrow> string" where
  "join sep [] = []"
| "join sep [x] = x"
| "join sep (x # y # ys) = x @ sep @ join sep (y # ys)"

fun show_nat :: "nat \<Rightarrow> string" where
  "show_nat n =
     (if n < 10 then [''0123456789'' ! n]
      else show_nat (n div 10) @ [''0123456789'' ! (n mod 10)])"

declare show_nat.simps [simp del]

text \<open>String conversion, as a template literal \<^verbatim>\<open>`${v}`\<close> performs it.\<close>

fun js_to_string :: "jsval \<Rightarrow> string" where
  "js_to_string JUndefined = ''undefined''"
| "js_to_string (JStr s) = s"
| "js_to_string (JNum n) = show_nat n"
| "js_to_string (JArr xs) =
     join '','' (map (\<lambda>x. if x = JUndefined then [] else js_to_string x) xs)"
| "js_to_string (JObj kvs) = ''[object Object]''"

text \<open>\<^verbatim>\<open>String.prototype.trim\<close>, for the ASCII white space characters.\<close>

definition is_space :: "char \<Rightarrow> bool" where
  "is_space c \<longleftrightarrow> c \<in> {CHR 0x09, CHR 0x0A, CHR 0x0B, CHR 0x0C, CHR 0x0D, CHR 0x20}"

definition js_trim :: "string \<Rightarrow> string" where
  "js_trim s = rev (dropWhile is_space (rev (dropWhile is_space s)))"

text \<open>\<^verbatim>\<open>String.prototype.toLowerCase\<close>, for the ASCII letters.\<close>

definition lower_char :: "char \<Rightarrow> char" where
  "lower_char c =
     (case map_of (zip ''ABCDEFGHIJKLMNOPQRSTUVWXYZ'' ''abcdefghijklmnopqrstuvwxyz'') c of
        None \<Rightarrow> c | Some d \<Rightarrow> d)"

definition toLowerCase :: "string \<Rightarrow> string" where
  "toLowerCase s = map lower_char s"

subsection \<open>\<^verbatim>\<open>JSON.stringify(value, null, 2)\<close>\<close>

definition json_escape_char :: "char \<Rightarrow> string" where
  \<open>json_escape_char c =
    (if c = CHR ''"'' then [CHR 0x5C, CHR ''"'']
     else if c = CHR 0x5C then [CHR 0x5C, CHR 0x5C]
     else if c = CHR 0x08 then [CHR 0x5C, CHR ''b'']
     else if c = CHR 0x09 then [CHR 0x5C, CHR ''t'']
     else if c = CHR 0x0A then [CHR 0x5C, CHR ''n'']
     else if c = CHR 0x0C then [CHR 0x5C, CHR ''f'']
     else if c = CHR 0x0D then [CHR 0x5C, CHR ''r'']
     else if (of_char c :: nat) < 32 then
       [CHR 0x5C, CHR ''u'', CHR ''0'', CHR ''0'',
        ''0123456789abcdef'' ! (of_char c div 16), ''0123456789abcdef'' ! (of_char c mod 16)]
     else [c])\<close>

definition json_quote :: "string \<Rightarrow> string" where
  \<open>json_quote s = ''"'' @ concat (map json_escape_char s) @ ''"''\<close>

text \<open>
  The first argument is the indentation of the enclosing line. A property whose value is
  \<^verbatim>\<open>undefined\<close> is left out of an object; in an array it is written \<^verbatim>\<open>null\<close>.
\<close>

fun stringify :: "string \<Rightarrow> jsval \<Rightarrow> string" where
  "stringify ind JUndefined = ''null''"
| "stringify ind (JStr s) = json_quote s"
| "stringify ind (JNum n) = show_nat n"
| "stringify ind (JArr xs) =
     (if xs = [] then ''[]''
      else ''['' @ NL
        @ join ('','' @ NL) (map (\<lambda>x. ind @ ''  '' @ stringify (ind @ ''  '') x) xs)
        @ NL @ ind @ '']'')"
| "stringify ind (JObj kvs) =
     (if filter (\<lambda>kv. snd kv \<noteq> JUndefined) kvs = [] then ''{}''
      else ''{'' @ NL
        @ join ('','' @ NL)
            (map (\<lambda>kv. ind @ ''  '' @ json_quote (fst kv) @ '': '' @ stringify (ind @ ''  '') (snd kv))
               (filter (\<lambda>kv. snd kv \<noteq> JUndefined) kvs))
        @ NL @ ind @ ''}'')"

definition JSON_stringify :: "jsval \<Rightarrow> string" where
  "JSON_stringify v = stringify [] v"

section \<open>The parser's events\<close>

text \<open>
  \<^verbatim>\<open>extract-components.js\<close> registers handlers on a stream of the \<^verbatim>\<open>sax\<close> package,
  which is not part of the repository. A document reaches the handlers as the sequence of
  events the parser emits for it: an open tag with its attributes in document order (a
  self-closing tag is an open tag followed by a close tag), character data, a close tag,
  a well-formedness error, and the end of the stream. An attribute is its qualified name,
  its value and the namespace URI its prefix is bound to (empty without a prefix).
\<close>

datatype attribute = Attribute (attr_name: string) (attr_value: string) (attr_uri: string)

datatype parse_event =
    Open string "attribute list"
  | Text string
  | Close string
  | Malformed string
  | EndOfStream

text \<open>The options of \<^verbatim>\<open>sax.createStream(true, {...})\<close>.\<close>

record sax_options =
  trim :: bool
  normalize :: bool
  lowercase :: bool
  xmlns :: bool

text \<open>The options \<^verbatim>\<open>ComponentExtractor.extract\<close> passes.\<close>

definition extract_options :: sax_options where
  "extract_options = \<lparr>trim = False, normalize = False, lowercase = False, xmlns = True\<rparr>"

text \<open>
  What \<^verbatim>\<open>node.attributes\<close> holds under an attribute's name, as the package documents
  it. Without \<^verbatim>\<open>xmlns\<close> it is the attribute's value, a string. With
  \<^verbatim>\<open>xmlns: true\<close> it is an object \<^verbatim>\<open>{name, value, prefix, local, uri}\<close>, where
  \<^verbatim>\<open>prefix\<close> and \<^verbatim>\<open>local\<close> split the qualified name at the colon. The stream is
  strict, and \<^verbatim>\<open>trim\<close> and \<^verbatim>\<open>normalize\<close> are off, so names and text arrive as
  they are in the document.
\<close>

definition qname_attr :: "string \<Rightarrow> string \<times> string" where
  "qname_attr name =
     (if name = ''xmlns'' then (''xmlns'', [])
      else if CHR '':'' \<in> set name then
        (takeWhile (\<lambda>c. c \<noteq> CHR '':'') name,
         takeWhile (\<lambda>c. c \<noteq> CHR '':'') (tl (dropWhile (\<lambda>c. c \<noteq> CHR '':'') name)))
      else ([], name))"

definition sax_attribute :: "sax_options \<Rightarrow> attribute \<Rightarrow> string \<times> jsval" where
  "sax_attribute opts a =
     (attr_name a,
      if xmlns opts then
        JObj [(''name'', JStr (attr_name a)), (''value'', JStr (attr_value a)),
              (''prefix'', JStr (fst (qname_attr (attr_name a)))),
              (''local'', JStr (snd (qname_attr (attr_name a)))),
              (''uri'', JStr (attr_uri a))]
      else JStr (attr_value a))"

text \<open>The events as the handlers receive them.\<close>

datatype sax_event =
    OpenTag string "(string \<times> jsval) list"
  | TextEv string
  | CloseTag string
  | ErrorEv string
  | EndEv

fun sax_emit :: "sax_options \<Rightarrow> parse_event \<Rightarrow> sax_event" where
  "sax_emit opts (Open name attrs) = OpenTag name (map (sax_attribute opts) attrs)"
| "sax_emit opts (Text t) = TextEv t"
| "sax_emit opts (Close name) = CloseTag name"
| "sax_emit opts (Malformed msg) = ErrorEv msg"
| "sax_emit opts EndOfStream = EndEv"

section \<open>The component extractor\<close>

text \<open>
  \<^verbatim>\<open>componentMetadata\<close>: \<^verbatim>\<open>{type, id, name, attributes}\<close>.
\<close>

record metadata =
  md_type :: string
  md_id :: jsval
  md_name :: jsval
  md_attributes :: "(string \<times> jsval) list"

definition metadata_json :: "metadata \<Rightarrow> jsval" where
  "metadata_json md =
     JObj [(''type'', JStr (md_type md)), (''id'', md_id md), (''name'', md_name md),
           (''attributes'', JObj (md_attributes md))]"

text \<open>The entries of \<^verbatim>\<open>capturedContent\<close>.\<close>

datatype item =
    ItemOpen string "(string \<times> jsval) list" int
  | ItemText string
  | ItemClose string int

text \<open>
  The console: one constructor for each \<^verbatim>\<open>console\<close> call or run of consecutive calls
  of the extractor and of the \<^verbatim>\<open>then\<close> and \<^verbatim>\<open>catch\<close> branches of the main block,
  with the values interpolated. \<open>LogExtractionComplete\<close> is the three summary lines,
  \<open>LogNextSteps\<close> the closing lines.
\<close>

datatype console_entry =
    LogExtracted string
  | ErrSaxParser string
  | LogExtractionComplete nat
  | LogIndexSaved
  | LogNextSteps
  | ErrExtracting string

text \<open>The promise \<^verbatim>\<open>extract\<close> returns: resolved with the count, or rejected.\<close>

datatype settled = Resolved nat | Rejected string

text \<open>
  The fields of the extractor, the local variables of \<^verbatim>\<open>extract\<close> its handlers share,
  and what the run leaves outside: the files written (paths relative to
  \<^verbatim>\<open>outputDir\<close>, in the order of the writes), the directories made, the console.
\<close>

record extractor =
  capturingContent :: bool
  captureDepth :: int
  currentDepth :: int
  capturedContent :: "item list"
  componentMetadata :: "metadata option"
  components :: "metadata list"
  files :: "(string \<times> string) list"
  dirs :: "string list"
  console :: "console_entry list"
  promise :: "settled option"

definition initial :: extractor where
  "initial = \<lparr>capturingContent = False, captureDepth = 0, currentDepth = 0,
     capturedContent = [], componentMetadata = None, components = [], files = [],
     dirs = [], console = [], promise = None\<rparr>"

subsection \<open>\<^verbatim>\<open>shouldCapture\<close>\<close>

definition typeMap :: "(string \<times> string list) list" where
  "typeMap =
     [(''coachview'', [''coachView'']),
      (''service'', [''humanService'', ''service'']),
      (''process'', [''process'', ''bpdProcess'']),
      (''task'', [''serviceTask'', ''scriptTask'', ''userTask''])]"

text \<open>
  \<^verbatim>\<open>typeMap[key]?.includes(tagName) || false\<close>. \<^verbatim>\<open>typeMap\<close> is an object literal, so
  the keys \<^verbatim>\<open>constructor\<close> and \<^verbatim>\<open>__proto__\<close> find an inherited value that is not
  nullish and has no \<^verbatim>\<open>includes\<close>: the call throws a TypeError.
\<close>

definition typeMap_includes :: "string \<Rightarrow> string \<Rightarrow> exn + bool" where
  "typeMap_includes key tagName =
     (case map_of typeMap key of
        Some tags \<Rightarrow> Inr (tagName \<in> set tags)
      | None \<Rightarrow>
          if key = ''constructor'' \<or> key = ''__proto__'' then Inl TypeError else Inr False)"

text \<open>\<^verbatim>\<open>componentId\<close> is \<^verbatim>\<open>null\<close> or a string; the empty string is falsy.\<close>

definition shouldCapture ::
  "string \<Rightarrow> string option \<Rightarrow> string \<Rightarrow> (string \<times> jsval) list \<Rightarrow> exn + bool" where
  "shouldCapture componentType componentId tagName attributes =
     (if (case componentId of None \<Rightarrow> False
          | Some cid \<Rightarrow> cid \<noteq> [] \<and> get_prop attributes ''id'' \<noteq> JStr cid)
      then Inr False
      else if componentType = ''all'' then
        Inr (tagName \<in> set [''coachView'', ''humanService'', ''service'', ''process'',
                              ''bpdProcess'', ''serviceTask''])
      else typeMap_includes (toLowerCase componentType) tagName)"

subsection \<open>\<^verbatim>\<open>escapeXML\<close> and \<^verbatim>\<open>reconstructXML\<close>\<close>

definition replace_all :: "char \<Rightarrow> string \<Rightarrow> string \<Rightarrow> string" where
  "replace_all c r s = concat (map (\<lambda>x. if x = c then r else [x]) s)"

fun escapeXML :: "jsval \<Rightarrow> jsval" where
  \<open>escapeXML (JStr str) =
     JStr (replace_all (CHR 0x27) ''&apos;''
            (replace_all (CHR ''"'') ''&quot;''
              (replace_all (CHR ''>'') ''&gt;''
                (replace_all (CHR ''<'') ''&lt;''
                  (replace_all (CHR ''&'') ''&amp;'' str)))))\<close>
| "escapeXML v = v"

definition xml_prologue :: string where
  \<open>xml_prologue = ''<?xml version="1.0" encoding="UTF-8"?>'' @ NL\<close>

text \<open>\<^verbatim>\<open>indent.repeat(n)\<close>: a negative count throws a RangeError.\<close>

definition repeat_indent :: "int \<Rightarrow> exn + string" where
  "repeat_indent n = (if n < 0 then Inl RangeError else Inr (concat (replicate (nat n) ''  '')))"

fun attributes_xml :: "(string \<times> jsval) list \<Rightarrow> string" where
  "attributes_xml [] = []"
| \<open>attributes_xml ((key, v) # rest) =
     '' '' @ key @ ''="'' @ js_to_string (escapeXML v) @ ''"'' @ attributes_xml rest\<close>

text \<open>The loop of \<^verbatim>\<open>reconstructXML\<close>, on the text so far and \<^verbatim>\<open>indentLevel\<close>.\<close>

fun reconstruct_loop :: "string \<Rightarrow> int \<Rightarrow> item list \<Rightarrow> exn + string" where
  "reconstruct_loop xml indentLevel [] = Inr xml"
| "reconstruct_loop xml indentLevel (ItemOpen name attributes d # rest) =
     (case repeat_indent indentLevel of
        Inl e \<Rightarrow> Inl e
      | Inr pad \<Rightarrow>
          reconstruct_loop (xml @ pad @ ''<'' @ name @ attributes_xml attributes @ ''>'' @ NL)
            (indentLevel + 1) rest)"
| "reconstruct_loop xml indentLevel (ItemText v # rest) =
     (case repeat_indent indentLevel of
        Inl e \<Rightarrow> Inl e
      | Inr pad \<Rightarrow>
          reconstruct_loop (xml @ pad @ js_to_string (escapeXML (JStr (js_trim v))) @ NL)
            indentLevel rest)"
| "reconstruct_loop xml indentLevel (ItemClose name d # rest) =
     (case repeat_indent (indentLevel - 1) of
        Inl e \<Rightarrow> Inl e
      | Inr pad \<Rightarrow>
          reconstruct_loop (xml @ pad @ ''</'' @ name @ ''>'' @ NL) (indentLevel - 1) rest)"

definition reconstructXML :: "item list \<Rightarrow> exn + string" where
  "reconstructXML content = reconstruct_loop xml_prologue 0 content"

subsection \<open>\<^verbatim>\<open>saveComponent\<close> and \<^verbatim>\<open>generateIndex\<close>\<close>

text \<open>
  \<^verbatim>\<open>path.join\<close> of a directory below \<^verbatim>\<open>outputDir\<close> and a file name. The directory is
  the tag name of a captured element, one of the names \<^verbatim>\<open>shouldCapture\<close> lists.
\<close>

definition path_join :: "string \<Rightarrow> string \<Rightarrow> string" where
  "path_join dir file = dir @ ''/'' @ file"

definition saveComponent :: "metadata \<Rightarrow> item list \<Rightarrow> extractor \<Rightarrow> exn + extractor" where
  "saveComponent md content s =
     (let typeDir = md_type md;
          s1 = (if typeDir \<in> set (dirs s) then s else s\<lparr>dirs := dirs s @ [typeDir]\<rparr>)
      in case reconstructXML content of
           Inl e \<Rightarrow> Inl e
         | Inr xmlContent \<Rightarrow>
             let xmlFileName = js_to_string (js_or (md_id md) (JStr ''unnamed'')) @ ''.xml'';
                 xmlPath = path_join typeDir xmlFileName;
                 jsonFileName = js_to_string (js_or (md_id md) (JStr ''unnamed'')) @ ''.json'';
                 jsonPath = path_join typeDir jsonFileName
             in Inr (s1\<lparr>files := files s1 @ [(xmlPath, xmlContent),
                                               (jsonPath, JSON_stringify (metadata_json md))],
                        console := console s1 @
                          [LogExtracted (md_type md @ ''/'' @
                             js_to_string (js_or (md_name md) (md_id md)))]\<rparr>))"

text \<open>The index; \<open>now\<close> is what \<^verbatim>\<open>new Date().toISOString()\<close> returns.\<close>

definition index_entry :: "metadata \<Rightarrow> jsval" where
  "index_entry c =
     JObj [(''type'', JStr (md_type c)), (''id'', md_id c), (''name'', md_name c),
           (''path'', JStr (md_type c @ ''/'' @ js_to_string (md_id c) @ ''.xml''))]"

definition index_json :: "string \<Rightarrow> metadata list \<Rightarrow> jsval" where
  "index_json now cs =
     JObj [(''extractedAt'', JStr now), (''totalComponents'', JNum (length cs)),
           (''components'', JArr (map index_entry cs))]"

definition generateIndex :: "string \<Rightarrow> extractor \<Rightarrow> extractor" where
  "generateIndex now s =
     s\<lparr>files := files s @ [(''index.json'', JSON_stringify (index_json now (components s)))],
       console := console s @ [LogIndexSaved]\<rparr>"

subsection \<open>The handlers of \<^verbatim>\<open>extract\<close>\<close>

text \<open>The metadata recorded when a capture starts.\<close>

definition start_metadata :: "string \<Rightarrow> (string \<times> jsval) list \<Rightarrow> metadata" where
  "start_metadata name attributes =
     \<lparr>md_type = name, md_id = get_prop attributes ''id'',
      md_name = js_or (get_prop attributes ''name'') (get_prop attributes ''id''),
      md_attributes = attributes\<rparr>"

definition on_opentag ::
  "string \<Rightarrow> string option \<Rightarrow> extractor \<Rightarrow> string \<Rightarrow> (string \<times> jsval) list \<Rightarrow> exn + extractor" where
  "on_opentag componentType componentId s name attributes =
     (case (if capturingContent s then Inr False
            else shouldCapture componentType componentId name attributes) of
        Inl e \<Rightarrow> Inl e
      | Inr start \<Rightarrow>
          let s1 = (if start then
                      s\<lparr>capturingContent := True, captureDepth := currentDepth s,
                        capturedContent := [],
                        componentMetadata := Some (start_metadata name attributes)\<rparr>
                    else s);
              s2 = (if capturingContent s1 then
                      s1\<lparr>capturedContent := capturedContent s1 @
                           [ItemOpen name attributes (currentDepth s1 - captureDepth s1)]\<rparr>
                    else s1)
          in Inr (s2\<lparr>currentDepth := currentDepth s2 + 1\<rparr>))"

definition on_text :: "extractor \<Rightarrow> string \<Rightarrow> extractor" where
  "on_text s text =
     (if capturingContent s \<and> js_trim text \<noteq> [] then
        s\<lparr>capturedContent := capturedContent s @ [ItemText text]\<rparr>
      else s)"

text \<open>
  \<^verbatim>\<open>saveComponent(componentMetadata, ...)\<close> reads \<^verbatim>\<open>metadata.type\<close>, which throws a
  TypeError when \<^verbatim>\<open>componentMetadata\<close> is \<^verbatim>\<open>null\<close>.
\<close>

definition on_closetag :: "extractor \<Rightarrow> string \<Rightarrow> exn + extractor" where
  "on_closetag s tagName =
     (let s1 = s\<lparr>currentDepth := currentDepth s - 1\<rparr> in
      if capturingContent s1 then
        let s2 = s1\<lparr>capturedContent := capturedContent s1 @
                     [ItemClose tagName (currentDepth s1 - captureDepth s1)]\<rparr>
        in if currentDepth s2 = captureDepth s2 then
             (case componentMetadata s2 of
                None \<Rightarrow> Inl TypeError
              | Some md \<Rightarrow>
                  (case saveComponent md (capturedContent s2) s2 of
                     Inl e \<Rightarrow> Inl e
                   | Inr s3 \<Rightarrow>
                       Inr (s3\<lparr>components := components s3 @ [md],
                                capturingContent := False,
                                capturedContent := [],
                                componentMetadata := None\<rparr>)))
           else Inr s2
      else Inr s1)"

text \<open>A promise settles once: a later \<^verbatim>\<open>resolve\<close> or \<^verbatim>\<open>reject\<close> has no effect.\<close>

definition settle :: "settled \<Rightarrow> settled option \<Rightarrow> settled option" where
  "settle r p = (case p of None \<Rightarrow> Some r | Some old \<Rightarrow> Some old)"

definition on_error :: "extractor \<Rightarrow> string \<Rightarrow> extractor" where
  "on_error s err =
     s\<lparr>console := console s @ [ErrSaxParser err], promise := settle (Rejected err) (promise s)\<rparr>"

definition on_end :: "extractor \<Rightarrow> extractor" where
  "on_end s = s\<lparr>promise := settle (Resolved (length (components s))) (promise s)\<rparr>"

fun handle :: "string \<Rightarrow> string option \<Rightarrow> extractor \<Rightarrow> sax_event \<Rightarrow> exn + extractor" where
  "handle ct cid s (OpenTag name attributes) = on_opentag ct cid s name attributes"
| "handle ct cid s (TextEv text) = Inr (on_text s text)"
| "handle ct cid s (CloseTag tagName) = on_closetag s tagName"
| "handle ct cid s (ErrorEv err) = Inr (on_error s err)"
| "handle ct cid s EndEv = Inr (on_end s)"

text \<open>The handlers run on the events in order; an exception a handler throws is not caught.\<close>

fun feed :: "string \<Rightarrow> string option \<Rightarrow> extractor \<Rightarrow> sax_event list \<Rightarrow> exn + extractor" where
  "feed ct cid s [] = Inr s"
| "feed ct cid s (e # es) =
     (case handle ct cid s e of Inl x \<Rightarrow> Inl x | Inr s' \<Rightarrow> feed ct cid s' es)"

text \<open>
  \<^verbatim>\<open>extract\<close>, with the parser configured by the given options, and as the source
  configures it.
\<close>

definition extract_with ::
  "sax_options \<Rightarrow> string \<Rightarrow> string option \<Rightarrow> parse_event list \<Rightarrow> exn + extractor" where
  "extract_with opts componentType componentId doc =
     feed componentType componentId initial (map (sax_emit opts) doc)"

definition extract_components ::
  "string \<Rightarrow> string option \<Rightarrow> parse_event list \<Rightarrow> exn + extractor" where
  "extract_components componentType componentId doc =
     extract_with extract_options componentType componentId doc"

subsection \<open>The command line\<close>

text \<open>
  The main block from the call of \<^verbatim>\<open>extract\<close> on (the argument checks and the banner
  printed before it do not depend on the document): the \<^verbatim>\<open>then\<close> branch prints the
  summary and writes the index, the \<^verbatim>\<open>catch\<close> branch exits with status 1. The result is
  the final state and the exit status; a promise that never settles leaves the process
  to end with status 0. The third command-line argument is \<^verbatim>\<open>args[2] || null\<close>.
\<close>

definition arg_or_null :: "string \<Rightarrow> string option" where
  "arg_or_null arg = (if arg = [] then None else Some arg)"

definition main :: "string \<Rightarrow> string \<Rightarrow> string \<Rightarrow> parse_event list \<Rightarrow> exn + (extractor \<times> nat)" where
  "main now componentType arg2 doc =
     (case extract_components componentType (arg_or_null arg2) doc of
        Inl e \<Rightarrow> Inl e
      | Inr s \<Rightarrow>
          (case promise s of
             Some (Resolved n) \<Rightarrow>
               let s1 = s\<lparr>console := console s @ [LogExtractionComplete n]\<rparr>;
                   s2 = generateIndex now s1
               in Inr (s2\<lparr>console := console s2 @ [LogNextSteps]\<rparr>, 0)
           | Some (Rejected err) \<Rightarrow> Inr (s\<lparr>console := console s @ [ErrExtracting err]\<rparr>, 1)
           | None \<Rightarrow> Inr (s, 0)))"

section \<open>Scenario documents and observations\<close>

text \<open>
  The events of the document
  \<^verbatim>\<open><svc><coachView id="A"><coachView id="B"/></coachView></svc>\<close>.
\<close>

definition nested_doc :: "parse_event list" where
  "nested_doc =
     [Open ''svc'' [],
      Open ''coachView'' [Attribute ''id'' ''A'' []],
      Open ''coachView'' [Attribute ''id'' ''B'' []], Close ''coachView'',
      Close ''coachView'',
      Close ''svc'',
      EndOfStream]"

text \<open>
  What a run leaves to look at: the ids of the components extracted, the paths written,
  and the content a path holds after the last write to it.
\<close>

definition extracted_ids :: "exn + extractor \<Rightarrow> jsval list option" where
  "extracted_ids r = (case r of Inl e \<Rightarrow> None | Inr s \<Rightarrow> Some (map md_id (components s)))"

definition written_paths :: "exn + extractor \<Rightarrow> string list option" where
  "written_paths r = (case r of Inl e \<Rightarrow> None | Inr s \<Rightarrow> Some (map fst (files s)))"

definition written :: "exn + extractor \<Rightarrow> string \<Rightarrow> string option" where
  "written r path = (case r of Inl e \<Rightarrow> None | Inr s \<Rightarrow> map_of (rev (files s)) path)"

text \<open>The same for a run of the command line, with the exit status and the console.\<close>

definition exit_code :: "exn + (extractor \<times> nat) \<Rightarrow> nat option" where
  "exit_code r = (case r of Inl e \<Rightarrow> None | Inr (s, code) \<Rightarrow> Some code)"

definition artifact_paths :: "exn + (extractor \<times> nat) \<Rightarrow> string list option" where
  "artifact_paths r = (case r of Inl e \<Rightarrow> None | Inr (s, code) \<Rightarrow> Some (map fst (files s)))"

definition artifact :: "exn + (extractor \<times> nat) \<Rightarrow> string \<Rightarrow> string option" where
  "artifact r path = (case r of Inl e \<Rightarrow> None | Inr (s, code) \<Rightarrow> map_of (rev (files s)) path)"

definition console_output :: "exn + (extractor \<times> nat) \<Rightarrow> console_entry list option" where
  "console_output r = (case r of Inl e \<Rightarrow> None | Inr (s, code) \<Rightarrow> Some (console s))"

definition extracted :: "exn + (extractor \<times> nat) \<Rightarrow> metadata list option" where
  "extracted r = (case r of Inl e \<Rightarrow> None | Inr (s, code) \<Rightarrow> Some (components s))"

text \<open>
  The events of \<^verbatim>\<open><svc><coachView>one</coachView><coachView>two</coachView></svc>\<close>:
  two elements of one type without an id.
\<close>

definition idless_doc :: "parse_event list" where
  "idless_doc =
     [Open ''svc'' [],
      Open ''coachView'' [], Text ''one'', Close ''coachView'',
      Open ''coachView'' [], Text ''two'', Close ''coachView'',
      Close ''svc'',
      EndOfStream]"

section \<open>Vocabulary of the properties\<close>

text \<open>
  Nesting of a sequence of tag and text events: \<open>level k es\<close> is the number of elements
  open after \<open>es\<close> when \<open>k\<close> were open before, and \<open>None\<close> when \<open>es\<close> closes more than is
  open or holds an error or the end of the stream. \<open>level 0 es = Some 0\<close> says that \<open>es\<close>
  is a sequence of complete elements and text.
\<close>

fun level :: "nat \<Rightarrow> sax_event list \<Rightarrow> nat option" where
  "level k [] = Some k"
| "level k (OpenTag name attributes # es) = level (Suc k) es"
| "level k (TextEv text # es) = level k es"
| "level k (CloseTag tagName # es) = (if k = 0 then None else level (k - 1) es)"
| "level k (ErrorEv err # es) = None"
| "level k (EndEv # es) = None"

text \<open>
  The same count for the events inside an open element, where errors and the end of the
  stream may occur and change nothing: \<open>inside 0 es = Some j\<close> says that \<open>es\<close> does
  not close the element it lies in, and leaves \<open>j\<close> elements open within it.
\<close>

fun inside :: "nat \<Rightarrow> sax_event list \<Rightarrow> nat option" where
  "inside k [] = Some k"
| "inside k (OpenTag name attributes # es) = inside (Suc k) es"
| "inside k (CloseTag tagName # es) = (if k = 0 then None else inside (k - 1) es)"
| "inside k (e # es) = inside k es"

text \<open>Open tags minus close tags.\<close>

fun net :: "sax_event list \<Rightarrow> int" where
  "net [] = 0"
| "net (OpenTag name attributes # es) = 1 + net es"
| "net (CloseTag tagName # es) = net es - 1"
| "net (e # es) = net es"

text \<open>
  The buffer entries a sequence of events stands for, read at relative depth \<open>d\<close>: every
  open and close tag, and the text that is not blank.
\<close>

fun items_of :: "int \<Rightarrow> sax_event list \<Rightarrow> item list" where
  "items_of d [] = []"
| "items_of d (OpenTag name attributes # es) = ItemOpen name attributes d # items_of (d + 1) es"
| "items_of d (TextEv text # es) =
     (if js_trim text \<noteq> [] then ItemText text # items_of d es else items_of d es)"
| "items_of d (CloseTag tagName # es) = ItemClose tagName (d - 1) # items_of (d - 1) es"
| "items_of d (ErrorEv err # es) = items_of d es"
| "items_of d (EndEv # es) = items_of d es"

text \<open>The value of \<^verbatim>\<open>indentLevel\<close> after a buffer, \<open>None\<close> if a repeat count is negative.\<close>

fun indent_after :: "int \<Rightarrow> item list \<Rightarrow> int option" where
  "indent_after l [] = Some l"
| "indent_after l (ItemOpen name attributes d # rest) =
     (if l < 0 then None else indent_after (l + 1) rest)"
| "indent_after l (ItemText v # rest) = (if l < 0 then None else indent_after l rest)"
| "indent_after l (ItemClose name d # rest) =
     (if l - 1 < 0 then None else indent_after (l - 1) rest)"

text \<open>The two files \<^verbatim>\<open>saveComponent\<close> writes for a component.\<close>

definition component_writes :: "metadata \<Rightarrow> string \<Rightarrow> (string \<times> string) list" where
  "component_writes md xmlContent =
     [(path_join (md_type md) (js_to_string (js_or (md_id md) (JStr ''unnamed'')) @ ''.xml''),
       xmlContent),
      (path_join (md_type md) (js_to_string (js_or (md_id md) (JStr ''unnamed'')) @ ''.json''),
       JSON_stringify (metadata_json md))]"

text \<open>
  What the capture fields say about the events \<open>evs\<close> read so far: outside a capture the
  buffer is empty; inside one, the events split at the open tag that started it, and the
  buffer and the relative depth are those of the events from that tag on.
\<close>

definition capture_inv ::
  "string \<Rightarrow> string option \<Rightarrow> sax_event list \<Rightarrow> extractor \<Rightarrow> bool" where
  "capture_inv ct cid evs s \<longleftrightarrow>
     (if capturingContent s then
        \<exists>pre name attrs sub. evs = pre @ OpenTag name attrs # sub
          \<and> shouldCapture ct cid name attrs = Inr True
          \<and> (\<exists>j. inside 0 sub = Some j)
          \<and> capturedContent s = items_of 0 (OpenTag name attrs # sub)
          \<and> currentDepth s - captureDepth s = net (OpenTag name attrs # sub)
      else capturedContent s = [])"

text \<open>The paths of the two files of a component.\<close>

definition component_paths :: "metadata \<Rightarrow> string list" where
  "component_paths md =
     [path_join (md_type md) (js_to_string (js_or (md_id md) (JStr ''unnamed'')) @ ''.xml''),
      path_join (md_type md) (js_to_string (js_or (md_id md) (JStr ''unnamed'')) @ ''.json'')]"

text \<open>
  The attribute values of an event are objects, as under \<^verbatim>\<open>xmlns: true\<close>; a lookup in
  such attributes gives an object or \<^verbatim>\<open>undefined\<close>.
\<close>

fun obj_or_undef :: "jsval \<Rightarrow> bool" where
  "obj_or_undef JUndefined = True"
| "obj_or_undef (JObj kvs) = True"
| "obj_or_undef v = False"

fun xmlns_event :: "sax_event \<Rightarrow> bool" where
  "xmlns_event (OpenTag name attributes) = list_all (\<lambda>kv. obj_or_undef (snd kv)) attributes"
| "xmlns_event e = True"

text \<open>The component types for which \<^verbatim>\<open>shouldCapture\<close> does not throw.\<close>

definition accepts_type :: "string \<Rightarrow> bool" where
  "accepts_type ct \<longleftrightarrow>
     ct = ''all'' \<or> (toLowerCase ct \<noteq> ''constructor'' \<and> toLowerCase ct \<noteq> ''__proto__'')"

text \<open>
  While a capture is active there is metadata, the depth is above the depth the capture
  started at, and the buffer re-indents to that relative depth.
\<close>

definition good :: "extractor \<Rightarrow> bool" where
  "good s \<longleftrightarrow>
     (capturingContent s \<longrightarrow>
        componentMetadata s \<noteq> None
      \<and> indent_after 0 (capturedContent s) = Some (currentDepth s - captureDepth s)
      \<and> 1 \<le> currentDepth s - captureDepth s)"

text \<open>
  The files written are those of the components extracted, in order; every component was
  recorded by \<^verbatim>\<open>start_metadata\<close> from attributes delivered as objects.
\<close>

definition out_inv :: "extractor \<Rightarrow> bool" where
  "out_inv s \<longleftrightarrow>
     map fst (files s) = concat (map component_paths (components s))
   \<and> (\<forall>c \<in> set (components s). c = start_metadata (md_type c) (md_attributes c) \<and> obj_or_undef (md_id c))
   \<and> (capturingContent s \<longrightarrow>
        (\<exists>md. componentMetadata s = Some md \<and> md = start_metadata (md_type md) (md_attributes md)
           \<and> obj_or_undef (md_id md)))"

text \<open>The parse events that settle the promise.\<close>

fun is_signal :: "parse_event \<Rightarrow> bool" where
  "is_signal (Malformed msg) = True"
| "is_signal EndOfStream = True"
| "is_signal e = False"

text \<open>
  The part of the state the capture and the files depend on: everything but the console
  and the promise.
\<close>

definition capture_view ::
  "extractor \<Rightarrow> bool \<times> int \<times> int \<times> item list \<times> metadata option \<times> metadata list
     \<times> (string \<times> string) list \<times> string list" where
  "capture_view s =
     (capturingContent s, captureDepth s, currentDepth s, capturedContent s,
      componentMetadata s, components s, files s, dirs s)"

section \<open>Properties of the complexity score\<close>

lemma score_linear:
  "calculateComplexityScore a =
     2 * length (coachViews a) + 2 * length (humanServices a) + 5 * maxNestingDepth a
       + 1 * fcard (dataBindings a) + 3 * length (serviceTasks a)"
  by (simp add: calculateComplexityScore_def Let_def)

lemma tier_of_score_mono: "m \<le> n \<Longrightarrow> tier_rank (tier_of_score m) \<le> tier_rank (tier_of_score n)"
  by (simp add: tier_of_score_def)

lemma rank_of_tier_text: "rank_of_text (tier_text t) = tier_rank t"
  by (cases t) (simp_all add: rank_of_text_def)

text \<open>
  C7. The score is a weighted sum, with fixed non-negative weights, of the component counts
  (coach views and human services, weight 2 each), the maximum nesting depth (weight 5),
  the number of distinct data bindings (weight 1) and the number of service tasks
  (weight 3); the recommendation is the text of one of four tiers, chosen by the score:
  LOW below 50, MEDIUM from 50 and below 150, HIGH from 150 and below 300, VERY HIGH from
  300. Raising any of the inputs and lowering none never lowers the score and never moves
  the recommendation to a lower tier.
\<close>

theorem complexity_score_monotone:
  assumes "inputs_le a b"
  shows "calculateComplexityScore a =
           2 * (length (coachViews a) + length (humanServices a)) + 5 * maxNestingDepth a
             + 1 * fcard (dataBindings a) + 3 * length (serviceTasks a)
         \<and> calculateComplexityScore a \<le> calculateComplexityScore b
         \<and> rank_of_text (getComplexityRecommendation a) \<le> rank_of_text (getComplexityRecommendation b)
         \<and> getComplexityRecommendation a \<in> tier_text ` {LOW, MEDIUM, HIGH, VERY_HIGH}
         \<and> getComplexityRecommendation a =
             (if calculateComplexityScore a < 50 then
                ''LOW: Can be converted in a single pass''
              else if calculateComplexityScore a < 150 then
                ''MEDIUM: Recommend component-by-component conversion''
              else if calculateComplexityScore a < 300 then
                ''HIGH: Requires chunked processing and template generation''
              else ''VERY HIGH: Requires incremental migration with multiple templates'')
         \<and> rank_of_text (getComplexityRecommendation a) =
             (if calculateComplexityScore a < 50 then 0
              else if calculateComplexityScore a < 150 then 1
              else if calculateComplexityScore a < 300 then 2
              else 3)"
proof -
  have le: "calculateComplexityScore a \<le> calculateComplexityScore b"
    using assms unfolding inputs_le_def score_linear by linarith
  have "tier_rank (tier_of_score (calculateComplexityScore a))
          \<le> tier_rank (tier_of_score (calculateComplexityScore b))"
    by (rule tier_of_score_mono [OF le])
  then have rk: "rank_of_text (getComplexityRecommendation a) \<le> rank_of_text (getComplexityRecommendation b)"
    by (simp add: getComplexityRecommendation_def rank_of_tier_text)
  have mem: "getComplexityRecommendation a \<in> tier_text ` {LOW, MEDIUM, HIGH, VERY_HIGH}"
    unfolding getComplexityRecommendation_def
    by (cases "tier_of_score (calculateComplexityScore a)") simp_all
  have wording: "getComplexityRecommendation a =
             (if calculateComplexityScore a < 50 then
                ''LOW: Can be converted in a single pass''
              else if calculateComplexityScore a < 150 then
                ''MEDIUM: Recommend component-by-component conversion''
              else if calculateComplexityScore a < 300 then
                ''HIGH: Requires chunked processing and template generation''
              else ''VERY HIGH: Requires incremental migration with multiple templates'')"
    by (simp add: getComplexityRecommendation_def tier_of_score_def)
  have cut: "rank_of_text (getComplexityRecommendation a) =
             (if calculateComplexityScore a < 50 then 0
              else if calculateComplexityScore a < 150 then 1
              else if calculateComplexityScore a < 300 then 2
              else 3)"
    by (simp add: getComplexityRecommendation_def rank_of_tier_text tier_of_score_def)
  have lin: "calculateComplexityScore a =
           2 * (length (coachViews a) + length (humanServices a)) + 5 * maxNestingDepth a
             + 1 * fcard (dataBindings a) + 3 * length (serviceTasks a)"
    by (simp add: score_linear)
  from lin le rk mem wording cut show ?thesis by blast
qed

theorem complexity_score_monotone_witness:
  "inputs_le
     \<lparr>coachViews = [''cv1''], humanServices = [], bpdProcesses = [], serviceTasks = [],
      dataBindings = {||}, maxNestingDepth = 3\<rparr>
     \<lparr>coachViews = [''cv1''], humanServices = [], bpdProcesses = [], serviceTasks = [],
      dataBindings = {||}, maxNestingDepth = 10\<rparr>
   \<and> calculateComplexityScore
       \<lparr>coachViews = [''cv1''], humanServices = [], bpdProcesses = [], serviceTasks = [],
        dataBindings = {||}, maxNestingDepth = 3\<rparr> = 17
   \<and> calculateComplexityScore
       \<lparr>coachViews = [''cv1''], humanServices = [], bpdProcesses = [], serviceTasks = [],
        dataBindings = {||}, maxNestingDepth = 3\<rparr>
     \<le> calculateComplexityScore
       \<lparr>coachViews = [''cv1''], humanServices = [], bpdProcesses = [], serviceTasks = [],
        dataBindings = {||}, maxNestingDepth = 10\<rparr>
   \<and> calculateComplexityScore
       \<lparr>coachViews = [''cv1''], humanServices = [], bpdProcesses = [], serviceTasks = [],
        dataBindings = {||}, maxNestingDepth = 10\<rparr> = 52
   \<and> getComplexityRecommendation
       \<lparr>coachViews = [''cv1''], humanServices = [], bpdProcesses = [], serviceTasks = [],
        dataBindings = {||}, maxNestingDepth = 3\<rparr>
     = ''LOW: Can be converted in a single pass''
   \<and> getComplexityRecommendation
       \<lparr>coachViews = [''cv1''], humanServices = [], bpdProcesses = [], serviceTasks = [],
        dataBindings = {||}, maxNestingDepth = 10\<rparr>
     = ''MEDIUM: Recommend component-by-component conversion''
   \<and> rank_of_text (getComplexityRecommendation
       \<lparr>coachViews = [''cv1''], humanServices = [], bpdProcesses = [], serviceTasks = [],
        dataBindings = {||}, maxNestingDepth = 3\<rparr>)
     \<le> rank_of_text (getComplexityRecommendation
       \<lparr>coachViews = [''cv1''], humanServices = [], bpdProcesses = [], serviceTasks = [],
        dataBindings = {||}, maxNestingDepth = 10\<rparr>)"
proof -
  let ?a = "\<lparr>coachViews = [''cv1''], humanServices = [], bpdProcesses = [], serviceTasks = [],
      dataBindings = {||}, maxNestingDepth = 3\<rparr>"
  let ?b = "\<lparr>coachViews = [''cv1''], humanServices = [], bpdProcesses = [], serviceTasks = [],
      dataBindings = {||}, maxNestingDepth = 10\<rparr>"
  have h: "inputs_le ?a ?b" by (simp add: inputs_le_def)
  have h2: "inputs_le ?b ?b" by (simp add: inputs_le_def)
  have sa: "calculateComplexityScore ?a = 17" by (simp add: calculateComplexityScore_def)
  have sb: "calculateComplexityScore ?b = 52" by (simp add: calculateComplexityScore_def)
  from complexity_score_monotone [OF h]
  have le: "calculateComplexityScore ?a \<le> calculateComplexityScore ?b"
    and rk: "rank_of_text (getComplexityRecommendation ?a)
      \<le> rank_of_text (getComplexityRecommendation ?b)"
    and ra: "getComplexityRecommendation ?a =
             (if calculateComplexityScore ?a < 50 then
                ''LOW: Can be converted in a single pass''
              else if calculateComplexityScore ?a < 150 then
                ''MEDIUM: Recommend component-by-component conversion''
              else if calculateComplexityScore ?a < 300 then
                ''HIGH: Requires chunked processing and template generation''
              else ''VERY HIGH: Requires incremental migration with multiple templates'')"
    by blast+
  from complexity_score_monotone [OF h2]
  have rb: "getComplexityRecommendation ?b =
             (if calculateComplexityScore ?b < 50 then
                ''LOW: Can be converted in a single pass''
              else if calculateComplexityScore ?b < 150 then
                ''MEDIUM: Recommend component-by-component conversion''
              else if calculateComplexityScore ?b < 300 then
                ''HIGH: Requires chunked processing and template generation''
              else ''VERY HIGH: Requires incremental migration with multiple templates'')"
    by blast
  have ra': "getComplexityRecommendation ?a = ''LOW: Can be converted in a single pass''"
    using ra unfolding sa by simp
  have rb': "getComplexityRecommendation ?b = ''MEDIUM: Recommend component-by-component conversion''"
    using rb unfolding sb by simp
  from h sa sb le rk ra' rb' show ?thesis by blast
qed

section \<open>The capture state machine\<close>

lemma feed_append:
  "feed ct cid s (xs @ ys) =
     (case feed ct cid s xs of Inl e \<Rightarrow> Inl e | Inr s' \<Rightarrow> feed ct cid s' ys)"
  by (induction xs arbitrary: s) (auto split: sum.splits)

lemma on_opentag_capturing:
  "capturingContent s \<Longrightarrow>
   on_opentag ct cid s name attrs =
     Inr (s\<lparr>capturedContent := capturedContent s @ [ItemOpen name attrs (currentDepth s - captureDepth s)],
            currentDepth := currentDepth s + 1\<rparr>)"
  by (simp add: on_opentag_def)

lemma on_opentag_start:
  "\<not> capturingContent s \<Longrightarrow> shouldCapture ct cid name attrs = Inr True \<Longrightarrow>
   on_opentag ct cid s name attrs =
     Inr (s\<lparr>capturingContent := True, captureDepth := currentDepth s,
            capturedContent := [ItemOpen name attrs 0],
            componentMetadata := Some (start_metadata name attrs),
            currentDepth := currentDepth s + 1\<rparr>)"
  by (simp add: on_opentag_def)

lemma on_opentag_skip:
  "\<not> capturingContent s \<Longrightarrow> shouldCapture ct cid name attrs = Inr False \<Longrightarrow>
   on_opentag ct cid s name attrs = Inr (s\<lparr>currentDepth := currentDepth s + 1\<rparr>)"
  by (simp add: on_opentag_def)

lemma on_opentag_throw:
  "\<not> capturingContent s \<Longrightarrow> shouldCapture ct cid name attrs = Inl e \<Longrightarrow>
   on_opentag ct cid s name attrs = Inl e"
  by (simp add: on_opentag_def)

lemma on_closetag_idle:
  "\<not> capturingContent s \<Longrightarrow> on_closetag s t = Inr (s\<lparr>currentDepth := currentDepth s - 1\<rparr>)"
  by (simp add: on_closetag_def)

lemma on_closetag_nested:
  "capturingContent s \<Longrightarrow> currentDepth s - 1 \<noteq> captureDepth s \<Longrightarrow>
   on_closetag s t =
     Inr (s\<lparr>currentDepth := currentDepth s - 1,
            capturedContent := capturedContent s @ [ItemClose t (currentDepth s - 1 - captureDepth s)]\<rparr>)"
  by (simp add: on_closetag_def Let_def)

lemma on_closetag_final:
  "capturingContent s \<Longrightarrow> currentDepth s - 1 = captureDepth s \<Longrightarrow>
   componentMetadata s = Some md \<Longrightarrow>
   reconstructXML (capturedContent s @ [ItemClose t 0]) = Inr xml \<Longrightarrow>
   on_closetag s t =
     Inr (s\<lparr>currentDepth := currentDepth s - 1,
            capturingContent := False, capturedContent := [], componentMetadata := None,
            components := components s @ [md],
            files := files s @ component_writes md xml,
            dirs := (if md_type md \<in> set (dirs s) then dirs s else dirs s @ [md_type md]),
            console := console s @
              [LogExtracted (md_type md @ ''/'' @ js_to_string (js_or (md_name md) (md_id md)))]\<rparr>)"
  by (simp add: on_closetag_def Let_def saveComponent_def component_writes_def)

lemma indent_after_append:
  "indent_after l (xs @ ys) =
     (case indent_after l xs of None \<Rightarrow> None | Some l' \<Rightarrow> indent_after l' ys)"
  by (induction l xs rule: indent_after.induct) auto

lemma reconstruct_loop_ok:
  "indent_after l b = Some l' \<Longrightarrow> \<exists>out. reconstruct_loop xml l b = Inr out"
  by (induction xml l b rule: reconstruct_loop.induct)
     (auto simp: repeat_indent_def split: if_splits)

lemma indent_after_items:
  "level k es = Some j \<Longrightarrow> int k \<le> l \<Longrightarrow>
   indent_after l (items_of d es) = Some (l - int k + int j)"
proof (induction es arbitrary: k l d)
  case Nil
  then show ?case by simp
next
  case (Cons e es)
  show ?case
  proof (cases e)
    case (OpenTag n a)
    with Cons.prems have lv: "level (Suc k) es = Some j" by simp
    have "indent_after (l + 1) (items_of (d + 1) es) = Some (l + 1 - int (Suc k) + int j)"
      using Cons.IH [OF lv, of "l + 1" "d + 1"] Cons.prems(2) by simp
    with OpenTag Cons.prems(2) show ?thesis by simp
  next
    case (TextEv t)
    with Cons.prems have lv: "level k es = Some j" by simp
    show ?thesis using Cons.IH [OF lv Cons.prems(2), of d] TextEv Cons.prems(2) by simp
  next
    case (CloseTag t)
    with Cons.prems have k: "k \<noteq> 0" and lv: "level (k - 1) es = Some j"
      by (auto split: if_splits)
    have "indent_after (l - 1) (items_of (d - 1) es) = Some (l - 1 - int (k - 1) + int j)"
      using Cons.IH [OF lv, of "l - 1" "d - 1"] Cons.prems(2) k by simp
    with CloseTag Cons.prems(2) k show ?thesis by (simp add: of_nat_diff)
  next
    case (ErrorEv m)
    with Cons.prems show ?thesis by simp
  next
    case EndEv
    with Cons.prems show ?thesis by simp
  qed
qed


lemma capture_body:
  "level k es = Some j \<Longrightarrow> capturingContent s \<Longrightarrow>
   currentDepth s = captureDepth s + 1 + int k \<Longrightarrow>
   feed ct cid s es =
     Inr (s\<lparr>capturedContent := capturedContent s @ items_of (1 + int k) es,
            currentDepth := captureDepth s + 1 + int j\<rparr>)"
proof (induction es arbitrary: s k)
  case Nil
  then show ?case by simp
next
  case (Cons e es)
  show ?case
  proof (cases e)
    case (OpenTag n a)
    let ?s = "s\<lparr>capturedContent := capturedContent s @ [ItemOpen n a (currentDepth s - captureDepth s)],
               currentDepth := currentDepth s + 1\<rparr>"
    from Cons.prems OpenTag have lv: "level (Suc k) es = Some j" by simp
    have "feed ct cid ?s es =
        Inr (?s\<lparr>capturedContent := capturedContent ?s @ items_of (1 + int (Suc k)) es,
               currentDepth := captureDepth ?s + 1 + int j\<rparr>)"
      by (rule Cons.IH [OF lv]) (use Cons.prems in simp_all)
    then show ?thesis
      using Cons.prems OpenTag by (simp add: on_opentag_capturing add.commute)
  next
    case (TextEv t)
    from Cons.prems TextEv have lv: "level k es = Some j" by simp
    have "feed ct cid (on_text s t) es =
        Inr ((on_text s t)\<lparr>capturedContent := capturedContent (on_text s t) @ items_of (1 + int k) es,
               currentDepth := captureDepth (on_text s t) + 1 + int j\<rparr>)"
      by (rule Cons.IH [OF lv]) (use Cons.prems in \<open>simp_all add: on_text_def\<close>)
    then show ?thesis
      using Cons.prems TextEv by (simp add: on_text_def)
  next
    case (CloseTag t)
    let ?s = "s\<lparr>currentDepth := currentDepth s - 1,
               capturedContent := capturedContent s @ [ItemClose t (currentDepth s - 1 - captureDepth s)]\<rparr>"
    from Cons.prems CloseTag have k: "k \<noteq> 0" and lv: "level (k - 1) es = Some j"
      by (auto split: if_splits)
    have step: "on_closetag s t = Inr ?s"
      by (rule on_closetag_nested) (use Cons.prems k in simp_all)
    have "feed ct cid ?s es =
        Inr (?s\<lparr>capturedContent := capturedContent ?s @ items_of (1 + int (k - 1)) es,
               currentDepth := captureDepth ?s + 1 + int j\<rparr>)"
      by (rule Cons.IH [OF lv]) (use Cons.prems k in \<open>simp_all add: of_nat_diff\<close>)
    then show ?thesis
      using Cons.prems CloseTag k step by (simp add: of_nat_diff)
  next
    case (ErrorEv m)
    with Cons.prems show ?thesis by simp
  next
    case EndEv
    with Cons.prems show ?thesis by simp
  qed
qed

lemma items_of_append:
  "items_of d (xs @ ys) = items_of d xs @ items_of (d + net xs) ys"
proof (induction xs arbitrary: d)
  case Nil
  then show ?case by simp
next
  case (Cons e xs)
  then show ?case by (cases e) (simp_all add: algebra_simps)
qed

lemma level_net: "level k es = Some j \<Longrightarrow> int j = int k + net es"
proof (induction es arbitrary: k)
  case Nil
  then show ?case by simp
next
  case (Cons e es)
  show ?case
  proof (cases e)
    case (CloseTag t)
    with Cons.prems have k: "k \<noteq> 0" and lv: "level (k - 1) es = Some j"
      by (auto split: if_splits)
    from Cons.IH [OF lv] k CloseTag show ?thesis by (simp add: of_nat_diff)
  qed (use Cons in \<open>auto dest: Cons.IH\<close>)
qed

lemma level_take: "level k es = Some j \<Longrightarrow> \<exists>j'. level k (take n es) = Some j'"
proof (induction es arbitrary: k n)
  case Nil
  then show ?case by simp
next
  case (Cons e es)
  then show ?case
    by (cases n; cases e) (auto split: if_splits)
qed

text \<open>
  C2. A capture that starts at an open tag seen at depth \<open>D\<close> (the handler is idle and
  \<^verbatim>\<open>shouldCapture\<close> accepts the tag) is still active, with nothing saved, after every
  prefix of the element's content: the depth stays above \<open>D\<close> and the buffer holds the open
  tag and every tag and non-blank text of the prefix, the close tags of nested elements
  included. The close tag that follows the content returns the depth to \<open>D\<close>, and it
  is this event that saves the component (one entry in \<^verbatim>\<open>components\<close>, the XML and
  JSON files), clears the capture flag and empties the buffer.
\<close>

theorem capture_ends_at_matching_close:
  assumes idle: "\<not> capturingContent s"
    and match: "shouldCapture ct cid name attrs = Inr True"
    and body: "level 0 body = Some 0"
  shows "(\<forall>n \<le> length body. \<exists>s1.
            feed ct cid s (OpenTag name attrs # take n body) = Inr s1
          \<and> capturingContent s1 \<and> captureDepth s1 = currentDepth s
          \<and> currentDepth s < currentDepth s1
          \<and> capturedContent s1 = items_of 0 (OpenTag name attrs # take n body)
          \<and> components s1 = components s \<and> files s1 = files s)
       \<and> (\<exists>s2 xml.
            feed ct cid s (OpenTag name attrs # body @ [CloseTag tagName]) = Inr s2
          \<and> reconstructXML (items_of 0 (OpenTag name attrs # body @ [CloseTag tagName])) = Inr xml
          \<and> \<not> capturingContent s2 \<and> capturedContent s2 = []
          \<and> componentMetadata s2 = None
          \<and> currentDepth s2 = currentDepth s
          \<and> components s2 = components s @ [start_metadata name attrs]
          \<and> files s2 = files s @ component_writes (start_metadata name attrs) xml)"
proof -
  let ?s0 = "s\<lparr>capturingContent := True, captureDepth := currentDepth s,
            capturedContent := [ItemOpen name attrs 0],
            componentMetadata := Some (start_metadata name attrs),
            currentDepth := currentDepth s + 1\<rparr>"
  have start: "on_opentag ct cid s name attrs = Inr ?s0"
    by (rule on_opentag_start [OF idle match])
  have during: "\<exists>s1.
            feed ct cid s (OpenTag name attrs # take n body) = Inr s1
          \<and> capturingContent s1 \<and> captureDepth s1 = currentDepth s
          \<and> currentDepth s < currentDepth s1
          \<and> capturedContent s1 = items_of 0 (OpenTag name attrs # take n body)
          \<and> components s1 = components s \<and> files s1 = files s" for n
  proof -
    obtain j where lv: "level 0 (take n body) = Some j"
      using level_take [OF body] by blast
    have "feed ct cid ?s0 (take n body) =
        Inr (?s0\<lparr>capturedContent := capturedContent ?s0 @ items_of (1 + int 0) (take n body),
               currentDepth := captureDepth ?s0 + 1 + int j\<rparr>)"
      by (rule capture_body [OF lv]) simp_all
    then show ?thesis using start by simp
  qed
  have fin: "feed ct cid ?s0 body =
        Inr (?s0\<lparr>capturedContent := capturedContent ?s0 @ items_of (1 + int 0) body,
               currentDepth := captureDepth ?s0 + 1 + int 0\<rparr>)"
    by (rule capture_body [OF body]) simp_all
  let ?s1 = "?s0\<lparr>capturedContent := ItemOpen name attrs 0 # items_of 1 body\<rparr>"
  have fin': "feed ct cid ?s0 body = Inr ?s1"
    using fin by simp
  have ind: "indent_after 0 (ItemOpen name attrs 0 # items_of 1 body @ [ItemClose tagName 0]) = Some 0"
    using indent_after_items [OF body, of 1 1] by (simp add: indent_after_append)
  then obtain xml where xml:
    "reconstructXML (ItemOpen name attrs 0 # items_of 1 body @ [ItemClose tagName 0]) = Inr xml"
    unfolding reconstructXML_def using reconstruct_loop_ok by blast
  have items: "items_of 0 (OpenTag name attrs # body @ [CloseTag tagName])
      = ItemOpen name attrs 0 # items_of 1 body @ [ItemClose tagName 0]"
    using level_net [OF body] by (simp add: items_of_append)
  have close: "on_closetag ?s1 tagName =
     Inr (?s1\<lparr>currentDepth := currentDepth ?s1 - 1,
            capturingContent := False, capturedContent := [], componentMetadata := None,
            components := components ?s1 @ [start_metadata name attrs],
            files := files ?s1 @ component_writes (start_metadata name attrs) xml,
            dirs := (if md_type (start_metadata name attrs) \<in> set (dirs ?s1) then dirs ?s1
                     else dirs ?s1 @ [md_type (start_metadata name attrs)]),
            console := console ?s1 @
              [LogExtracted (md_type (start_metadata name attrs) @ ''/'' @
                 js_to_string (js_or (md_name (start_metadata name attrs))
                                     (md_id (start_metadata name attrs))))]\<rparr>)"
    by (rule on_closetag_final) (use xml in simp_all)
  have "\<exists>s2. feed ct cid s (OpenTag name attrs # body @ [CloseTag tagName]) = Inr s2
          \<and> \<not> capturingContent s2 \<and> capturedContent s2 = []
          \<and> componentMetadata s2 = None
          \<and> currentDepth s2 = currentDepth s
          \<and> components s2 = components s @ [start_metadata name attrs]
          \<and> files s2 = files s @ component_writes (start_metadata name attrs) xml"
    using start fin' close by (simp add: feed_append)
  with xml items during show ?thesis by auto
qed

lemma toLowerCase_coachview: "toLowerCase ''coachview'' = ''coachview''"
  by code_simp

lemma shouldCapture_coachview:
  "shouldCapture ''coachview'' None name attrs = Inr (name = ''coachView'')"
  by (simp add: shouldCapture_def toLowerCase_coachview typeMap_includes_def typeMap_def)

theorem capture_ends_at_matching_close_witness:
  "\<not> capturingContent initial
   \<and> shouldCapture ''coachview'' None ''coachView'' [] = Inr True
   \<and> level 0 [OpenTag ''b'' [], TextEv ''hi'', CloseTag ''b''] = Some 0
   \<and> (\<exists>s2. feed ''coachview'' None initial
               (OpenTag ''coachView'' [] # [OpenTag ''b'' [], TextEv ''hi'', CloseTag ''b'']
                  @ [CloseTag ''coachView'']) = Inr s2
          \<and> \<not> capturingContent s2 \<and> capturedContent s2 = [] \<and> currentDepth s2 = 0
          \<and> components s2 = [start_metadata ''coachView'' []])"
proof -
  have h1: "\<not> capturingContent initial" by (simp add: initial_def)
  have h2: "shouldCapture ''coachview'' None ''coachView'' [] = Inr True"
    by (simp add: shouldCapture_coachview)
  have h3: "level 0 [OpenTag ''b'' [], TextEv ''hi'', CloseTag ''b''] = Some 0" by simp
  from capture_ends_at_matching_close [OF h1 h2 h3, of "''coachView''"]
  obtain s2 where "feed ''coachview'' None initial
               (OpenTag ''coachView'' [] # [OpenTag ''b'' [], TextEv ''hi'', CloseTag ''b'']
                  @ [CloseTag ''coachView'']) = Inr s2"
     "\<not> capturingContent s2" "capturedContent s2 = []" "currentDepth s2 = currentDepth initial"
     "components s2 = components initial @ [start_metadata ''coachView'' []]"
    by blast
  then show ?thesis using h1 h2 h3 by (auto simp: initial_def)
qed

section \<open>Attribute values under the parser options of the extractor\<close>

lemmas handler_defs = on_opentag_def on_closetag_def on_text_def on_error_def on_end_def
  settle_def saveComponent_def start_metadata_def get_prop_def js_or_def path_join_def Let_def

lemmas xml_defs = reconstructXML_def repeat_indent_def xml_prologue_def NL_def replace_all_def
  js_trim_def is_space_def

lemmas sax_defs = extract_components_def extract_with_def extract_options_def sax_attribute_def
  qname_attr_def initial_def

text \<open>
  C1. The run of the extractor, as the source configures the parser, on the nested
  scenario document with component type \<^verbatim>\<open>coachview\<close> and no id filter: one component
  is extracted, for the outer element, and the inner element is buffered, not extracted.
  The id recorded for the component is not the string \<^verbatim>\<open>A\<close> but the parser's attribute
  object, the files are named \<^verbatim>\<open>[object Object]\<close>, and the fragment written shows
  \<^verbatim>\<open>id="[object Object]"\<close> on both elements: the ids \<^verbatim>\<open>A\<close> and \<^verbatim>\<open>B\<close> are not in it.
\<close>

theorem nested_scenario_ids_are_objects:
  \<open>extracted_ids (extract_components ''coachview'' None nested_doc)
     = Some [JObj [(''name'', JStr ''id''), (''value'', JStr ''A''),
              (''prefix'', JStr []), (''local'', JStr ''id''), (''uri'', JStr [])]]
   \<and> written_paths (extract_components ''coachview'' None nested_doc)
     = Some [''coachView/[object Object].xml'', ''coachView/[object Object].json'']
   \<and> written (extract_components ''coachview'' None nested_doc) ''coachView/[object Object].xml''
     = Some (''<?xml version="1.0" encoding="UTF-8"?>'' @ NL
          @ ''<coachView id="[object Object]">'' @ NL
          @ ''  <coachView id="[object Object]">'' @ NL
          @ ''  </coachView>'' @ NL
          @ ''</coachView>'' @ NL)\<close>
  by (simp add: sax_defs nested_doc_def handler_defs xml_defs shouldCapture_coachview
      extracted_ids_def written_paths_def written_def)


text \<open>
  With attribute values delivered as strings (the parser without \<^verbatim>\<open>xmlns\<close>, as
  \<^verbatim>\<open>analyze-bpmn.js\<close> creates it) the same handlers give what the scenario expects.
\<close>

lemma nested_scenario_without_xmlns:
  \<open>extracted_ids (extract_with (extract_options\<lparr>xmlns := False\<rparr>) ''coachview'' None nested_doc)
     = Some [JStr ''A'']
   \<and> written (extract_with (extract_options\<lparr>xmlns := False\<rparr>) ''coachview'' None nested_doc)
       ''coachView/A.xml''
     = Some (''<?xml version="1.0" encoding="UTF-8"?>'' @ NL
          @ ''<coachView id="A">'' @ NL
          @ ''  <coachView id="B">'' @ NL
          @ ''  </coachView>'' @ NL
          @ ''</coachView>'' @ NL)\<close>
  by (simp add: sax_defs nested_doc_def handler_defs xml_defs shouldCapture_coachview
      extracted_ids_def written_paths_def written_def)

text \<open>
  Under \<^verbatim>\<open>xmlns: true\<close> no attribute is a string, so an id filter rejects every tag.
\<close>

lemma get_prop_xmlns:
  "get_prop (map (sax_attribute extract_options) attrs) k \<noteq> JStr v"
  by (induction attrs) (simp_all add: get_prop_def sax_attribute_def extract_options_def)

lemma shouldCapture_id_filter:
  "cid \<noteq> [] \<Longrightarrow>
   shouldCapture ct (Some cid) name (map (sax_attribute extract_options) attrs) = Inr False"
  by (simp add: shouldCapture_def get_prop_xmlns)

lemma id_filter_feed:
  assumes "cid \<noteq> []" and "\<not> capturingContent s"
  shows "\<exists>s'. feed ct (Some cid) s (map (sax_emit extract_options) doc) = Inr s'
     \<and> \<not> capturingContent s' \<and> components s' = components s \<and> files s' = files s"
  using assms(2)
proof (induction doc arbitrary: s)
  case Nil
  then show ?case by simp
next
  case (Cons e doc)
  show ?case
  proof (cases e)
    case (Open n as)
    have "\<exists>s'. feed ct (Some cid) (s\<lparr>currentDepth := currentDepth s + 1\<rparr>)
        (map (sax_emit extract_options) doc) = Inr s'
     \<and> \<not> capturingContent s' \<and> components s' = components (s\<lparr>currentDepth := currentDepth s + 1\<rparr>)
     \<and> files s' = files (s\<lparr>currentDepth := currentDepth s + 1\<rparr>)"
      by (rule Cons.IH) (use Cons.prems in simp)
    then show ?thesis
      using Open Cons.prems assms(1) by (simp add: on_opentag_skip shouldCapture_id_filter)
  next
    case (Text t)
    have "\<exists>s'. feed ct (Some cid) (on_text s t) (map (sax_emit extract_options) doc) = Inr s'
     \<and> \<not> capturingContent s' \<and> components s' = components (on_text s t)
     \<and> files s' = files (on_text s t)"
      by (rule Cons.IH) (use Cons.prems in \<open>simp add: on_text_def\<close>)
    then show ?thesis using Text Cons.prems by (simp add: on_text_def)
  next
    case (Close n)
    have "\<exists>s'. feed ct (Some cid) (s\<lparr>currentDepth := currentDepth s - 1\<rparr>)
        (map (sax_emit extract_options) doc) = Inr s'
     \<and> \<not> capturingContent s' \<and> components s' = components (s\<lparr>currentDepth := currentDepth s - 1\<rparr>)
     \<and> files s' = files (s\<lparr>currentDepth := currentDepth s - 1\<rparr>)"
      by (rule Cons.IH) (use Cons.prems in simp)
    then show ?thesis using Close Cons.prems by (simp add: on_closetag_idle)
  next
    case (Malformed m)
    have "\<exists>s'. feed ct (Some cid) (on_error s m) (map (sax_emit extract_options) doc) = Inr s'
     \<and> \<not> capturingContent s' \<and> components s' = components (on_error s m)
     \<and> files s' = files (on_error s m)"
      by (rule Cons.IH) (use Cons.prems in \<open>simp add: on_error_def\<close>)
    then show ?thesis using Malformed Cons.prems by (simp add: on_error_def)
  next
    case EndOfStream
    have "\<exists>s'. feed ct (Some cid) (on_end s) (map (sax_emit extract_options) doc) = Inr s'
     \<and> \<not> capturingContent s' \<and> components s' = components (on_end s)
     \<and> files s' = files (on_end s)"
      by (rule Cons.IH) (use Cons.prems in \<open>simp add: on_end_def\<close>)
    then show ?thesis using EndOfStream Cons.prems by (simp add: on_end_def)
  qed
qed

lemma id_filter_extracts_nothing:
  "cid \<noteq> [] \<Longrightarrow>
   \<exists>s. extract_components ct (Some cid) doc = Inr s \<and> components s = [] \<and> files s = []"
  using id_filter_feed [of cid initial ct doc]
  by (auto simp add: extract_components_def extract_with_def initial_def)

text \<open>
  C8. The run on the nested scenario document with component type \<^verbatim>\<open>coachview\<close> and
  the id filter \<^verbatim>\<open>B\<close>: \<^verbatim>\<open>attributes.id !== componentId\<close> compares the attribute object
  with the string, holds for every tag, and no component is extracted and no file written.
\<close>

theorem id_filter_scenario_extracts_nothing:
  "extracted_ids (extract_components ''coachview'' (Some ''B'') nested_doc) = Some []
   \<and> written_paths (extract_components ''coachview'' (Some ''B'') nested_doc) = Some []"
  by (simp add: sax_defs nested_doc_def handler_defs shouldCapture_def
      extracted_ids_def written_paths_def)

lemma id_filter_scenario_without_xmlns:
  "extracted_ids (extract_with (extract_options\<lparr>xmlns := False\<rparr>) ''coachview'' (Some ''B'') nested_doc)
     = Some [JStr ''B'']
   \<and> written_paths (extract_with (extract_options\<lparr>xmlns := False\<rparr>) ''coachview'' (Some ''B'') nested_doc)
     = Some [''coachView/B.xml'', ''coachView/B.json'']"
  by (simp add: sax_defs nested_doc_def handler_defs xml_defs shouldCapture_def
      toLowerCase_coachview typeMap_includes_def typeMap_def
      extracted_ids_def written_paths_def)

text \<open>
  What holds of the serialisation: the output starts with the prologue, and a string
  passed through \<^verbatim>\<open>escapeXML\<close> has no \<^verbatim>\<open><\<close>, \<^verbatim>\<open>>\<close> or quote left. An
  object passes through unchanged and prints as \<^verbatim>\<open>[object Object]\<close>.
\<close>

lemma reconstruct_loop_extends:
  "reconstruct_loop xml l b = Inr out \<Longrightarrow> \<exists>rest. out = xml @ rest"
proof (induction xml l b rule: reconstruct_loop.induct)
  case (1 xml indentLevel)
  then show ?case by simp
next
  case (2 xml indentLevel name attributes d rest)
  then show ?case by (auto split: sum.splits)
next
  case (3 xml indentLevel v rest)
  then show ?case by (auto split: sum.splits)
next
  case (4 xml indentLevel name d rest)
  then show ?case by (auto split: sum.splits)
qed

lemma reconstructXML_prologue:
  "reconstructXML content = Inr out \<Longrightarrow> \<exists>rest. out = xml_prologue @ rest"
  unfolding reconstructXML_def by (rule reconstruct_loop_extends)

lemma replace_all_set: "set (replace_all c r s) \<subseteq> (set s - {c}) \<union> set r"
  by (induction s) (auto simp: replace_all_def)

lemma escapeXML_string:
  \<open>\<exists>t. escapeXML (JStr s) = JStr t
     \<and> CHR ''<'' \<notin> set t \<and> CHR ''>'' \<notin> set t \<and> CHR ''"'' \<notin> set t \<and> CHR 0x27 \<notin> set t\<close>
proof -
  let ?a = "replace_all (CHR ''&'') ''&amp;'' s"
  let ?b = "replace_all (CHR ''<'') ''&lt;'' ?a"
  let ?c = "replace_all (CHR ''>'') ''&gt;'' ?b"
  let ?d = \<open>replace_all (CHR ''"'') ''&quot;'' ?c\<close>
  let ?e = "replace_all (CHR 0x27) ''&apos;'' ?d"
  have b: "CHR ''<'' \<notin> set ?b" using replace_all_set [of "CHR ''<''" "''&lt;''" ?a] by auto
  have c: "CHR ''<'' \<notin> set ?c \<and> CHR ''>'' \<notin> set ?c"
    using b replace_all_set [of "CHR ''>''" "''&gt;''" ?b] by auto
  have d: \<open>CHR ''<'' \<notin> set ?d \<and> CHR ''>'' \<notin> set ?d \<and> CHR ''"'' \<notin> set ?d\<close>
    using c replace_all_set [of \<open>CHR ''"''\<close> "''&quot;''" ?c] by auto
  have e: \<open>CHR ''<'' \<notin> set ?e \<and> CHR ''>'' \<notin> set ?e \<and> CHR ''"'' \<notin> set ?e \<and> CHR 0x27 \<notin> set ?e\<close>
    using d replace_all_set [of "CHR 0x27" "''&apos;''" ?d] by auto
  then show ?thesis by simp
qed

lemma escapeXML_object: "escapeXML (JObj kvs) = JObj kvs \<and> js_to_string (JObj kvs) = ''[object Object]''"
  by simp

text \<open>
  C3. The fragments written for \<^verbatim>\<open><coachView id="A"/>\<close> and for
  \<^verbatim>\<open><coachView id="B"/>\<close> are the same bytes, with \<^verbatim>\<open>id="[object Object]"\<close>: the
  attribute value is not in the output, so no parser can read the buffered events back
  from it.
\<close>

theorem attribute_values_lost_in_fragment:
  \<open>written (extract_components ''coachview'' None
       [Open ''coachView'' [Attribute ''id'' ''A'' []], Close ''coachView'', EndOfStream])
     ''coachView/[object Object].xml''
     = Some (''<?xml version="1.0" encoding="UTF-8"?>'' @ NL
          @ ''<coachView id="[object Object]">'' @ NL
          @ ''</coachView>'' @ NL)
   \<and> written (extract_components ''coachview'' None
       [Open ''coachView'' [Attribute ''id'' ''B'' []], Close ''coachView'', EndOfStream])
     ''coachView/[object Object].xml''
     = Some (''<?xml version="1.0" encoding="UTF-8"?>'' @ NL
          @ ''<coachView id="[object Object]">'' @ NL
          @ ''</coachView>'' @ NL)\<close>
  by (simp add: sax_defs handler_defs xml_defs shouldCapture_coachview written_def)

section \<open>Invariants of a scan\<close>

lemma on_closetag_final_cases:
  assumes "capturingContent s'" and "currentDepth s' - 1 = captureDepth s'"
    and "on_closetag s' t = Inr s"
  obtains md xml where "componentMetadata s' = Some md"
    and "reconstructXML (capturedContent s' @ [ItemClose t 0]) = Inr xml"
    and "s = s'\<lparr>currentDepth := currentDepth s' - 1,
            capturingContent := False, capturedContent := [], componentMetadata := None,
            components := components s' @ [md],
            files := files s' @ component_writes md xml,
            dirs := (if md_type md \<in> set (dirs s') then dirs s' else dirs s' @ [md_type md]),
            console := console s' @
              [LogExtracted (md_type md @ ''/'' @ js_to_string (js_or (md_name md) (md_id md)))]\<rparr>"
proof -
  from assms obtain md where md: "componentMetadata s' = Some md"
    by (auto simp: on_closetag_def Let_def split: option.splits)
  from assms md obtain xml where xml: "reconstructXML (capturedContent s' @ [ItemClose t 0]) = Inr xml"
    by (auto simp: on_closetag_def Let_def saveComponent_def split: sum.splits)
  from on_closetag_final [OF assms(1,2) md xml] assms(3) that [OF md xml] show thesis
    by simp
qed

lemma handle_cases [consumes 1, case_names open_inside open_start open_skip chars close_idle close_nested close_final failure finish]:
  assumes "handle ct cid s' e = Inr s"
  obtains
    (open_inside) n a where "e = OpenTag n a" "capturingContent s'"
      "s = s'\<lparr>capturedContent := capturedContent s' @ [ItemOpen n a (currentDepth s' - captureDepth s')],
             currentDepth := currentDepth s' + 1\<rparr>"
  | (open_start) n a where "e = OpenTag n a" "\<not> capturingContent s'"
      "shouldCapture ct cid n a = Inr True"
      "s = s'\<lparr>capturingContent := True, captureDepth := currentDepth s',
            capturedContent := [ItemOpen n a 0],
            componentMetadata := Some (start_metadata n a),
            currentDepth := currentDepth s' + 1\<rparr>"
  | (open_skip) n a where "e = OpenTag n a" "\<not> capturingContent s'"
      "shouldCapture ct cid n a = Inr False" "s = s'\<lparr>currentDepth := currentDepth s' + 1\<rparr>"
  | (chars) t where "e = TextEv t" "s = on_text s' t"
  | (close_idle) t where "e = CloseTag t" "\<not> capturingContent s'"
      "s = s'\<lparr>currentDepth := currentDepth s' - 1\<rparr>"
  | (close_nested) t where "e = CloseTag t" "capturingContent s'"
      "currentDepth s' - 1 \<noteq> captureDepth s'"
      "s = s'\<lparr>currentDepth := currentDepth s' - 1,
             capturedContent := capturedContent s' @
               [ItemClose t (currentDepth s' - 1 - captureDepth s')]\<rparr>"
  | (close_final) t md xml where "e = CloseTag t" "capturingContent s'"
      "currentDepth s' - 1 = captureDepth s'" "componentMetadata s' = Some md"
      "reconstructXML (capturedContent s' @ [ItemClose t 0]) = Inr xml"
      "s = s'\<lparr>currentDepth := currentDepth s' - 1,
            capturingContent := False, capturedContent := [], componentMetadata := None,
            components := components s' @ [md],
            files := files s' @ component_writes md xml,
            dirs := (if md_type md \<in> set (dirs s') then dirs s' else dirs s' @ [md_type md]),
            console := console s' @
              [LogExtracted (md_type md @ ''/'' @ js_to_string (js_or (md_name md) (md_id md)))]\<rparr>"
  | (failure) m where "e = ErrorEv m" "s = on_error s' m"
  | (finish) "e = EndEv" "s = on_end s'"
proof (cases e)
  case (OpenTag n a)
  show thesis
  proof (cases "capturingContent s'")
    case True
    with assms OpenTag open_inside show thesis by (simp add: on_opentag_capturing)
  next
    case False
    show thesis
    proof (cases "shouldCapture ct cid n a")
      case (Inl x)
      with assms OpenTag False show thesis by (simp add: on_opentag_throw)
    next
      case (Inr b)
      show thesis
      proof (cases b)
        case True
        with Inr assms OpenTag False open_start [of n a] show thesis
          by (simp add: on_opentag_start)
      next
        case F: False
        with Inr assms OpenTag False open_skip [of n a] show thesis
          by (simp add: on_opentag_skip)
      qed
    qed
  qed
next
  case (TextEv t)
  with assms chars show thesis by simp
next
  case (CloseTag t)
  show thesis
  proof (cases "capturingContent s'")
    case False
    with assms CloseTag close_idle [of t] show thesis by (simp add: on_closetag_idle)
  next
    case True
    show thesis
    proof (cases "currentDepth s' - 1 = captureDepth s'")
      case F: False
      with assms CloseTag True close_nested [of t] show thesis
        by (simp add: on_closetag_nested)
    next
      case T: True
      from assms CloseTag have "on_closetag s' t = Inr s" by simp
      from on_closetag_final_cases [OF True T this] obtain md xml where
        "componentMetadata s' = Some md"
        "reconstructXML (capturedContent s' @ [ItemClose t 0]) = Inr xml"
        "s = s'\<lparr>currentDepth := currentDepth s' - 1,
            capturingContent := False, capturedContent := [], componentMetadata := None,
            components := components s' @ [md],
            files := files s' @ component_writes md xml,
            dirs := (if md_type md \<in> set (dirs s') then dirs s' else dirs s' @ [md_type md]),
            console := console s' @
              [LogExtracted (md_type md @ ''/'' @ js_to_string (js_or (md_name md) (md_id md)))]\<rparr>"
        by blast
      then show thesis using close_final [OF CloseTag True T] by blast
    qed
  qed
next
  case (ErrorEv m)
  with assms failure show thesis by simp
next
  case EndEv
  with assms finish show thesis by simp
qed

lemma feed_invariant:
  assumes step: "\<And>s' e s. I s' \<Longrightarrow> e \<in> set evs \<Longrightarrow> handle ct cid s' e = Inr s \<Longrightarrow> I s"
    and init: "I s0" and run: "feed ct cid s0 evs = Inr s"
  shows "I s"
  using assms
proof (induction evs arbitrary: s0)
  case Nil
  then show ?case by simp
next
  case (Cons e evs)
  from Cons.prems(3) obtain s1 where h: "handle ct cid s0 e = Inr s1"
    and r: "feed ct cid s1 evs = Inr s"
    by (auto split: sum.splits)
  have "I s1" using Cons.prems(1) [OF Cons.prems(2) _ h] by simp
  show ?case
    by (rule Cons.IH [OF _ \<open>I s1\<close> r]) (use Cons.prems(1) in auto)
qed

lemma component_paths_writes: "map fst (component_writes md xml) = component_paths md"
  by (simp add: component_writes_def component_paths_def)

lemma start_metadata_fix:
  "start_metadata (md_type (start_metadata n a)) (md_attributes (start_metadata n a)) = start_metadata n a"
  by (simp add: start_metadata_def)

lemma get_prop_obj_or_undef:
  "list_all (\<lambda>kv. obj_or_undef (snd kv)) attrs \<Longrightarrow> obj_or_undef (get_prop attrs k)"
  by (induction attrs) (auto simp: get_prop_def)

lemma handle_out_inv:
  assumes "out_inv s'" and "xmlns_event e" and "handle ct cid s' e = Inr s"
  shows "out_inv s"
  using assms(3)
proof (cases rule: handle_cases)
  case (open_start n a)
  have "obj_or_undef (md_id (start_metadata n a))"
    using assms(2) open_start(1) get_prop_obj_or_undef [of a "''id''"]
    by (simp add: start_metadata_def)
  with assms(1) open_start show ?thesis
    by (simp add: out_inv_def start_metadata_fix)
next
  case (close_final t md xml)
  with assms(1) show ?thesis
    by (auto simp: out_inv_def component_paths_writes)
qed (use assms(1) in \<open>auto simp: out_inv_def on_text_def on_error_def on_end_def\<close>)

lemma xmlns_event_sax_emit: "xmlns_event (sax_emit extract_options e)"
  by (cases e) (simp_all add: list_all_iff sax_attribute_def extract_options_def)

lemma out_inv_initial: "out_inv initial"
  by (simp add: out_inv_def initial_def)

lemma extract_out_inv:
  assumes "extract_components ct cid doc = Inr s"
  shows "out_inv s"
proof (rule feed_invariant [where I = out_inv, OF _ out_inv_initial])
  show "feed ct cid initial (map (sax_emit extract_options) doc) = Inr s"
    using assms by (simp add: extract_components_def extract_with_def)
next
  fix s' e s
  assume "out_inv s'" and "e \<in> set (map (sax_emit extract_options) doc)"
    and "handle ct cid s' e = Inr s"
  then show "out_inv s"
    by (auto intro: handle_out_inv [OF _ xmlns_event_sax_emit])
qed


lemma shouldCapture_total:
  "accepts_type ct \<Longrightarrow> \<exists>b. shouldCapture ct cid n a = Inr b"
  by (auto simp: shouldCapture_def accepts_type_def typeMap_includes_def split: option.splits)

lemma handle_good:
  assumes g: "good s" and ty: "accepts_type ct"
  shows "\<exists>s'. handle ct cid s e = Inr s' \<and> good s'"
proof (cases e)
  case (OpenTag n a)
  show ?thesis
  proof (cases "capturingContent s")
    case True
    with g OpenTag show ?thesis
      by (auto simp: on_opentag_capturing good_def indent_after_append)
  next
    case False
    from shouldCapture_total [OF ty] obtain b where b: "shouldCapture ct cid n a = Inr b"
      by blast
    show ?thesis
    proof (cases b)
      case True
      with b False OpenTag show ?thesis
        by (simp add: on_opentag_start good_def)
    next
      case F: False
      with b False OpenTag show ?thesis
        by (simp add: on_opentag_skip good_def)
    qed
  qed
next
  case (TextEv t)
  with g show ?thesis
    by (auto simp: on_text_def good_def indent_after_append)
next
  case (CloseTag t)
  show ?thesis
  proof (cases "capturingContent s")
    case False
    with CloseTag show ?thesis by (simp add: on_closetag_idle good_def)
  next
    case True
    with g obtain md where md: "componentMetadata s = Some md"
      and ind: "indent_after 0 (capturedContent s) = Some (currentDepth s - captureDepth s)"
      and pos: "1 \<le> currentDepth s - captureDepth s"
      by (auto simp: good_def)
    show ?thesis
    proof (cases "currentDepth s - 1 = captureDepth s")
      case F: False
      with True pos ind md CloseTag show ?thesis
        by (auto simp: on_closetag_nested good_def indent_after_append)
    next
      case T: True
      have "indent_after 0 (capturedContent s @ [ItemClose t 0]) = Some 0"
        using ind T by (simp add: indent_after_append)
      then obtain xml where xml: "reconstructXML (capturedContent s @ [ItemClose t 0]) = Inr xml"
        unfolding reconstructXML_def using reconstruct_loop_ok by blast
      show ?thesis
        using on_closetag_final [OF True T md xml] CloseTag by (simp add: good_def)
    qed
  qed
next
  case (ErrorEv m)
  with g show ?thesis by (simp add: on_error_def good_def)
next
  case EndEv
  with g show ?thesis by (simp add: on_end_def good_def)
qed

lemma feed_total:
  "good s \<Longrightarrow> accepts_type ct \<Longrightarrow> \<exists>s'. feed ct cid s evs = Inr s' \<and> good s'"
proof (induction evs arbitrary: s)
  case Nil
  then show ?case by simp
next
  case (Cons e evs)
  from handle_good [OF Cons.prems] obtain s1 where
    h: "handle ct cid s e = Inr s1" and g: "good s1" by blast
  from Cons.IH [OF g Cons.prems(2)] h show ?case by simp
qed

lemma good_initial: "good initial"
  by (simp add: good_def initial_def)

lemma extract_total:
  "accepts_type ct \<Longrightarrow> \<exists>s. extract_components ct cid doc = Inr s"
  using feed_total [OF good_initial, of ct cid "map (sax_emit extract_options) doc"]
  by (auto simp: extract_components_def extract_with_def)

lemma handle_files_grow:
  "handle ct cid s' e = Inr s \<Longrightarrow> \<exists>later. files s = files s' @ later"
  by (cases rule: handle_cases) (auto simp: on_text_def on_error_def on_end_def)

lemma feed_files_grow:
  "feed ct cid s0 evs = Inr s \<Longrightarrow> \<exists>later. files s = files s0 @ later"
proof (induction evs arbitrary: s0)
  case Nil
  then show ?case by simp
next
  case (Cons e evs)
  from Cons.prems obtain s1 where h: "handle ct cid s0 e = Inr s1"
    and r: "feed ct cid s1 evs = Inr s"
    by (auto split: sum.splits)
  from handle_files_grow [OF h] Cons.IH [OF r] show ?case by auto
qed

lemma handle_promise_kept:
  "handle ct cid s' e = Inr s \<Longrightarrow> promise s' = Some r \<Longrightarrow> promise s = Some r"
  by (cases rule: handle_cases) (auto simp: on_text_def on_error_def on_end_def settle_def)

lemma feed_promise_kept:
  "feed ct cid s0 evs = Inr s \<Longrightarrow> promise s0 = Some r \<Longrightarrow> promise s = Some r"
proof (induction evs arbitrary: s0)
  case Nil
  then show ?case by simp
next
  case (Cons e evs)
  from Cons.prems obtain s1 where h: "handle ct cid s0 e = Inr s1"
    and r: "feed ct cid s1 evs = Inr s"
    by (auto split: sum.splits)
  from Cons.IH [OF r handle_promise_kept [OF h Cons.prems(2)]] show ?case .
qed

lemma feed_promise_pending:
  "feed ct cid s0 (map (sax_emit opts) pre) = Inr s \<Longrightarrow> \<forall>e \<in> set pre. \<not> is_signal e \<Longrightarrow>
   promise s = promise s0"
proof (induction pre arbitrary: s0)
  case Nil
  then show ?case by simp
next
  case (Cons e pre)
  from Cons.prems obtain s1 where h: "handle ct cid s0 (sax_emit opts e) = Inr s1"
    and r: "feed ct cid s1 (map (sax_emit opts) pre) = Inr s"
    by (auto split: sum.splits)
  have ns: "\<not> is_signal e" using Cons.prems(2) by simp
  have "promise s1 = promise s0"
    using h
  proof (cases rule: handle_cases)
    case (failure m)
    with ns show ?thesis by (cases e) simp_all
  next
    case finish
    with ns show ?thesis by (cases e) simp_all
  qed (simp_all add: on_text_def)
  with Cons.IH [OF r] Cons.prems(2) show ?case by simp
qed

lemma component_path_slash: "p \<in> set (component_paths c) \<Longrightarrow> CHR ''/'' \<in> set p"
  by (auto simp: component_paths_def path_join_def)

lemma out_inv_no_index: "out_inv s \<Longrightarrow> ''index.json'' \<notin> fst ` set (files s)"
proof
  assume inv: "out_inv s" and "''index.json'' \<in> fst ` set (files s)"
  moreover from inv have "map fst (files s) = concat (map component_paths (components s))"
    by (simp add: out_inv_def)
  ultimately have "''index.json'' \<in> set (concat (map component_paths (components s)))"
    by (metis set_map)
  then obtain c where "''index.json'' \<in> set (component_paths c)" by auto
  from component_path_slash [OF this] show False by simp
qed

section \<open>Files of a run of the command line\<close>

lemma differ_from_end: "rev p ! n \<noteq> rev q ! n \<Longrightarrow> p \<noteq> q"
  by auto

lemma component_path_not_undefined:
  assumes "obj_or_undef (md_id c)" and "p \<in> set (component_paths c)"
  shows "p \<noteq> T @ ''/undefined.xml''"
proof (cases "md_id c")
  case JUndefined
  with assms(2) have "p = md_type c @ ''/unnamed.xml'' \<or> p = md_type c @ ''/unnamed.json''"
    by (auto simp: component_paths_def path_join_def js_or_def)
  then show ?thesis
  proof
    assume "p = md_type c @ ''/unnamed.xml''"
    then show ?thesis by (intro differ_from_end [where n = 6]) (simp add: nth_append)
  next
    assume "p = md_type c @ ''/unnamed.json''"
    then show ?thesis by (intro differ_from_end [where n = 0]) (simp add: nth_append)
  qed
next
  case (JObj kvs)
  with assms(2) have "p = md_type c @ ''/[object Object].xml'' \<or> p = md_type c @ ''/[object Object].json''"
    by (auto simp: component_paths_def path_join_def js_or_def)
  then show ?thesis
  proof
    assume "p = md_type c @ ''/[object Object].xml''"
    then show ?thesis by (intro differ_from_end [where n = 4]) (simp add: nth_append)
  next
    assume "p = md_type c @ ''/[object Object].json''"
    then show ?thesis by (intro differ_from_end [where n = 0]) (simp add: nth_append)
  qed
qed (use assms(1) in simp_all)

lemma main_cases:
  assumes "main now ct arg doc = Inr (s, code)"
  obtains (resolved) s0 n where "extract_components ct (arg_or_null arg) doc = Inr s0"
      "promise s0 = Some (Resolved n)" "code = 0"
      "s = s0\<lparr>files := files s0 @ [(''index.json'', JSON_stringify (index_json now (components s0)))],
             console := console s0 @ [LogExtractionComplete n, LogIndexSaved, LogNextSteps]\<rparr>"
  | (rejected) s0 m where "extract_components ct (arg_or_null arg) doc = Inr s0"
      "promise s0 = Some (Rejected m)" "code = 1"
      "s = s0\<lparr>console := console s0 @ [ErrExtracting m]\<rparr>"
  | (pending) "extract_components ct (arg_or_null arg) doc = Inr s" "promise s = None" "code = 0"
proof -
  from assms obtain s0 where s0: "extract_components ct (arg_or_null arg) doc = Inr s0"
    by (auto simp: main_def split: sum.splits)
  show thesis
  proof (cases "promise s0")
    case None
    with assms s0 pending show thesis by (auto simp add: main_def)
  next
    case (Some r)
    show thesis
    proof (cases r)
      case (Resolved n)
      with assms s0 Some resolved [OF s0, of n] show thesis
        by (auto simp add: main_def generateIndex_def Let_def)
    next
      case (Rejected m)
      with assms s0 Some rejected [OF s0, of m] show thesis
        by (auto simp add: main_def)
    qed
  qed
qed


text \<open>
  The text \<^verbatim>\<open>JSON.stringify\<close> gives for an index holds, for every component, the
  property \<^verbatim>\<open>"path"\<close> with the path computed from the component's id.
\<close>

lemma join_contains:
  "x \<in> set xs \<Longrightarrow> \<exists>pre post. join sep xs = pre @ x @ post"
proof (induction sep xs rule: join.induct)
  case (1 sep)
  then show ?case by simp
next
  case (2 sep y)
  then have "join sep [y] = [] @ x @ []" by simp
  then show ?case by blast
next
  case (3 sep y z zs)
  show ?case
  proof (cases "x = y")
    case True
    then have "join sep (y # z # zs) = [] @ x @ (sep @ join sep (z # zs))" by simp
    then show ?thesis by blast
  next
    case False
    with 3 obtain pre post where "join sep (z # zs) = pre @ x @ post" by auto
    then have "join sep (y # z # zs) = (y @ sep @ pre) @ x @ post" by simp
    then show ?thesis by blast
  qed
qed

lemma stringify_array_contains:
  assumes "x \<in> set xs"
  shows "\<exists>pre post. stringify ind (JArr xs) = pre @ stringify (ind @ ''  '') x @ post"
proof -
  have "ind @ ''  '' @ stringify (ind @ ''  '') x
      \<in> set (map (\<lambda>x. ind @ ''  '' @ stringify (ind @ ''  '') x) xs)"
    using assms by auto
  from join_contains [OF this, of "'','' @ NL"] obtain pre post where
    "join ('','' @ NL) (map (\<lambda>x. ind @ ''  '' @ stringify (ind @ ''  '') x) xs)
      = pre @ (ind @ ''  '' @ stringify (ind @ ''  '') x) @ post"
    by blast
  moreover have "xs \<noteq> []" using assms by auto
  ultimately have "stringify ind (JArr xs)
      = (''['' @ NL @ pre @ ind @ ''  '') @ stringify (ind @ ''  '') x @ (post @ NL @ ind @ '']'')"
    by simp
  then show ?thesis by blast
qed

lemma stringify_object_contains:
  assumes "(k, v) \<in> set kvs" and "v \<noteq> JUndefined"
  shows "\<exists>pre post. stringify ind (JObj kvs)
      = pre @ (json_quote k @ '': '' @ stringify (ind @ ''  '') v) @ post"
proof -
  let ?props = "filter (\<lambda>kv. snd kv \<noteq> JUndefined) kvs"
  let ?line = "\<lambda>kv. ind @ ''  '' @ json_quote (fst kv) @ '': '' @ stringify (ind @ ''  '') (snd kv)"
  have mem: "(k, v) \<in> set ?props" using assms by simp
  have "?line (k, v) \<in> ?line ` set ?props" using mem by (rule imageI)
  then have "?line (k, v) \<in> set (map ?line ?props)" by simp
  from join_contains [OF this, of "'','' @ NL"] obtain pre post where
    "join ('','' @ NL) (map ?line ?props) = pre @ ?line (k, v) @ post"
    by blast
  moreover have "?props \<noteq> []" using assms by (force simp: filter_empty_conv)
  ultimately have "stringify ind (JObj kvs)
      = (''{'' @ NL @ pre @ ind @ ''  '') @ (json_quote k @ '': '' @ stringify (ind @ ''  '') v)
          @ (post @ NL @ ind @ ''}'')"
    by simp
  then show ?thesis by blast
qed

lemma contains_trans:
  assumes "a = pre @ b @ post" and "b = pre' @ c @ post'"
  shows "\<exists>p q. a = p @ c @ q"
proof -
  have "a = (pre @ pre') @ c @ (post' @ post)" using assms by simp
  then show ?thesis by blast
qed

lemma index_contains_path:
  assumes "c \<in> set cs"
  shows "\<exists>pre post. JSON_stringify (index_json now cs)
      = pre @ (json_quote ''path'' @ '': '' @
               json_quote (md_type c @ ''/'' @ js_to_string (md_id c) @ ''.xml'')) @ post"
proof -
  have "(''components'', JArr (map index_entry cs)) \<in> set
      [(''extractedAt'', JStr now), (''totalComponents'', JNum (length cs)),
       (''components'', JArr (map index_entry cs))]"
    by simp
  from stringify_object_contains [OF this, of "[]"] obtain p1 q1 where 1:
    "JSON_stringify (index_json now cs)
      = p1 @ (json_quote ''components'' @ '': '' @ stringify ''  '' (JArr (map index_entry cs))) @ q1"
    by (auto simp: JSON_stringify_def index_json_def)
  have "index_entry c \<in> set (map index_entry cs)" using assms by simp
  from stringify_array_contains [OF this, of "''  ''"] obtain p2 q2 where 2:
    "stringify ''  '' (JArr (map index_entry cs)) = p2 @ stringify ''    '' (index_entry c) @ q2"
    by auto
  have "(''path'', JStr (md_type c @ ''/'' @ js_to_string (md_id c) @ ''.xml'')) \<in> set
      [(''type'', JStr (md_type c)), (''id'', md_id c), (''name'', md_name c),
       (''path'', JStr (md_type c @ ''/'' @ js_to_string (md_id c) @ ''.xml''))]"
    by simp
  from stringify_object_contains [OF this, of "''    ''"] obtain p3 q3 where 3:
    "stringify ''    '' (index_entry c)
      = p3 @ (json_quote ''path'' @ '': '' @
              json_quote (md_type c @ ''/'' @ js_to_string (md_id c) @ ''.xml'')) @ q3"
    by (auto simp: index_entry_def)
  have "JSON_stringify (index_json now cs)
      = (p1 @ json_quote ''components'' @ '': '' @ p2 @ p3)
        @ (json_quote ''path'' @ '': '' @
              json_quote (md_type c @ ''/'' @ js_to_string (md_id c) @ ''.xml''))
        @ (q3 @ q2 @ q1)"
    unfolding 1 2 3 by simp
  then show ?thesis by blast
qed

text \<open>
  C10. In a run of the command line, a component whose element has no \<^verbatim>\<open>id\<close> attribute
  has its two files under the base name \<^verbatim>\<open>unnamed\<close> in the directory of its type, so
  the paths depend on the type alone and every further id-less component of that type
  writes to the same two paths (the files written are, in order, the two of each
  component); its entry in the index has no id and the path
  \<^verbatim>\<open><type>/undefined.xml\<close>, and no file is written at that path in the run. When the
  run resolves, the content of \<^verbatim>\<open>index.json\<close> is the serialisation of the index whose
  \<^verbatim>\<open>components\<close> array holds these entries, and its text contains
  \<^verbatim>\<open>"path": "<type>/undefined.xml"\<close>.
\<close>

theorem idless_component_paths:
  assumes run: "main now ct arg doc = Inr (s, code)"
    and c: "c \<in> set (components s)"
    and noid: "''id'' \<notin> fst ` set (md_attributes c)"
  shows "component_paths c =
           [path_join (md_type c) ''unnamed.xml'', path_join (md_type c) ''unnamed.json'']
       \<and> set (component_paths c) \<subseteq> fst ` set (files s)
       \<and> (\<exists>ix. map fst (files s) = concat (map component_paths (components s)) @ ix
              \<and> set ix \<subseteq> {''index.json''})
       \<and> index_entry c =
           JObj [(''type'', JStr (md_type c)), (''id'', JUndefined), (''name'', md_name c),
                 (''path'', JStr (md_type c @ ''/undefined.xml''))]
       \<and> md_type c @ ''/undefined.xml'' \<notin> fst ` set (files s)
       \<and> ((\<exists>n. promise s = Some (Resolved n)) \<longrightarrow>
            artifact (Inr (s, code)) ''index.json''
              = Some (JSON_stringify (index_json now (components s)))
          \<and> index_json now (components s) =
              JObj [(''extractedAt'', JStr now),
                    (''totalComponents'', JNum (length (components s))),
                    (''components'', JArr (map index_entry (components s)))]
          \<and> (\<exists>pre post. JSON_stringify (index_json now (components s))
                = pre @ (json_quote ''path'' @ '': '' @
                         json_quote (md_type c @ ''/undefined.xml'')) @ post))"
proof -
  from run obtain s0 ix where s0: "extract_components ct (arg_or_null arg) doc = Inr s0"
    and comps: "components s = components s0"
    and fs: "map fst (files s) = map fst (files s0) @ ix"
    and ix: "set ix \<subseteq> {''index.json''}"
  proof (cases rule: main_cases)
    case (resolved s0 n)
    with that [of s0 "[''index.json'']"] show ?thesis by simp
  next
    case (rejected s0 m)
    with that [of s0 "[]"] show ?thesis by simp
  next
    case pending
    with that [of s "[]"] show ?thesis by simp
  qed
  have inv: "out_inv s0" by (rule extract_out_inv [OF s0])
  then have paths: "map fst (files s0) = concat (map component_paths (components s0))"
    and shape: "\<forall>c \<in> set (components s0).
        c = start_metadata (md_type c) (md_attributes c) \<and> obj_or_undef (md_id c)"
    by (simp_all add: out_inv_def)
  from c comps shape have "c = start_metadata (md_type c) (md_attributes c)" by simp
  then have "md_id c = get_prop (md_attributes c) ''id''"
    by (metis metadata.select_convs(2) start_metadata_def)
  moreover from noid have "map_of (md_attributes c) ''id'' = None"
    by (simp add: map_of_eq_None_iff)
  ultimately have undef: "md_id c = JUndefined" by (simp add: get_prop_def)
  have p1: "component_paths c =
           [path_join (md_type c) ''unnamed.xml'', path_join (md_type c) ''unnamed.json'']"
    using undef by (simp add: component_paths_def js_or_def)
  have "set (component_paths c) \<subseteq> set (map fst (files s))"
    using c comps unfolding fs paths by auto
  then have p2: "set (component_paths c) \<subseteq> fst ` set (files s)" by simp
  have p3: "\<exists>ix. map fst (files s) = concat (map component_paths (components s)) @ ix
              \<and> set ix \<subseteq> {''index.json''}"
    using fs paths comps ix by auto
  have p4: "index_entry c =
           JObj [(''type'', JStr (md_type c)), (''id'', JUndefined), (''name'', md_name c),
                 (''path'', JStr (md_type c @ ''/undefined.xml''))]"
    using undef by (simp add: index_entry_def)
  have p5: "md_type c @ ''/undefined.xml'' \<notin> fst ` set (files s)"
  proof
    assume "md_type c @ ''/undefined.xml'' \<in> fst ` set (files s)"
    then have "md_type c @ ''/undefined.xml'' \<in> set (map fst (files s))" by simp
    then have "md_type c @ ''/undefined.xml'' \<in> set (concat (map component_paths (components s0)))
        \<or> md_type c @ ''/undefined.xml'' \<in> set ix"
      unfolding fs paths by simp
    then show False
    proof
      assume "md_type c @ ''/undefined.xml'' \<in> set (concat (map component_paths (components s0)))"
      then obtain c' where c': "c' \<in> set (components s0)"
        and p: "md_type c @ ''/undefined.xml'' \<in> set (component_paths c')"
        by auto
      from shape c' have "obj_or_undef (md_id c')" by simp
      from component_path_not_undefined [OF this p, where T = "md_type c"] show False by simp
    next
      assume "md_type c @ ''/undefined.xml'' \<in> set ix"
      with ix have "md_type c @ ''/undefined.xml'' = ''index.json''" by auto
      then have "last (md_type c @ ''/undefined.xml'') = last ''index.json''" by simp
      then show False by simp
    qed
  qed
  have p6: "(\<exists>n. promise s = Some (Resolved n)) \<longrightarrow>
            artifact (Inr (s, code)) ''index.json''
              = Some (JSON_stringify (index_json now (components s)))
          \<and> index_json now (components s) =
              JObj [(''extractedAt'', JStr now),
                    (''totalComponents'', JNum (length (components s))),
                    (''components'', JArr (map index_entry (components s)))]
          \<and> (\<exists>pre post. JSON_stringify (index_json now (components s))
                = pre @ (json_quote ''path'' @ '': '' @
                         json_quote (md_type c @ ''/undefined.xml'')) @ post)"
  proof
    assume res: "\<exists>n. promise s = Some (Resolved n)"
    have written: "artifact (Inr (s, code)) ''index.json''
              = Some (JSON_stringify (index_json now (components s)))"
      using run
    proof (cases rule: main_cases)
      case (resolved s0 n)
      then show ?thesis by (simp add: artifact_def)
    next
      case (rejected s0 m)
      with res show ?thesis by simp
    next
      case pending
      with res show ?thesis by simp
    qed
    have shape: "index_json now (components s) =
              JObj [(''extractedAt'', JStr now),
                    (''totalComponents'', JNum (length (components s))),
                    (''components'', JArr (map index_entry (components s)))]"
      by (simp add: index_json_def)
    from index_contains_path [OF c, of now]
    have "\<exists>pre post. JSON_stringify (index_json now (components s))
                = pre @ (json_quote ''path'' @ '': '' @
                         json_quote (md_type c @ ''/undefined.xml'')) @ post"
      using undef by simp
    with written shape show "artifact (Inr (s, code)) ''index.json''
              = Some (JSON_stringify (index_json now (components s)))
          \<and> index_json now (components s) =
              JObj [(''extractedAt'', JStr now),
                    (''totalComponents'', JNum (length (components s))),
                    (''components'', JArr (map index_entry (components s)))]
          \<and> (\<exists>pre post. JSON_stringify (index_json now (components s))
                = pre @ (json_quote ''path'' @ '': '' @
                         json_quote (md_type c @ ''/undefined.xml'')) @ post)"
      by blast
  qed
  from p1 p2 p3 p4 p5 p6 show ?thesis by blast
qed

lemmas main_defs = main_def arg_or_null_def generateIndex_def


lemma exit_code_SomeD: "exit_code r = Some code \<Longrightarrow> \<exists>s. r = Inr (s, code)"
  by (auto simp: exit_code_def split: sum.splits)

lemma show_nat_2: "show_nat (Suc (Suc 0)) = ''2''"
  by (simp add: show_nat.simps [of "Suc (Suc 0)"])

lemma idless_index_text:
  \<open>JSON_stringify (index_json ''2026-01-01T00:00:00.000Z''
       [start_metadata ''coachView'' [], start_metadata ''coachView'' []])
   = ''{'' @ NL
     @ ''  "extractedAt": "2026-01-01T00:00:00.000Z",'' @ NL
     @ ''  "totalComponents": 2,'' @ NL
     @ ''  "components": ['' @ NL
     @ ''    {'' @ NL
     @ ''      "type": "coachView",'' @ NL
     @ ''      "path": "coachView/undefined.xml"'' @ NL
     @ ''    },'' @ NL
     @ ''    {'' @ NL
     @ ''      "type": "coachView",'' @ NL
     @ ''      "path": "coachView/undefined.xml"'' @ NL
     @ ''    }'' @ NL
     @ ''  ]'' @ NL
     @ ''}''\<close>
  by (simp add: JSON_stringify_def index_json_def index_entry_def start_metadata_def
      get_prop_def js_or_def json_quote_def json_escape_char_def NL_def show_nat_2)


theorem idless_component_paths_witness:
  \<open>exit_code (main ''2026-01-01T00:00:00.000Z'' ''coachview'' [] idless_doc) = Some 0
   \<and> extracted (main ''2026-01-01T00:00:00.000Z'' ''coachview'' [] idless_doc)
       = Some [start_metadata ''coachView'' [], start_metadata ''coachView'' []]
   \<and> artifact_paths (main ''2026-01-01T00:00:00.000Z'' ''coachview'' [] idless_doc)
       = Some [''coachView/unnamed.xml'', ''coachView/unnamed.json'',
               ''coachView/unnamed.xml'', ''coachView/unnamed.json'', ''index.json'']
   \<and> artifact (main ''2026-01-01T00:00:00.000Z'' ''coachview'' [] idless_doc)
       ''coachView/undefined.xml'' = None
   \<and> artifact (main ''2026-01-01T00:00:00.000Z'' ''coachview'' [] idless_doc) ''index.json''
       = Some (''{'' @ NL
          @ ''  "extractedAt": "2026-01-01T00:00:00.000Z",'' @ NL
          @ ''  "totalComponents": 2,'' @ NL
          @ ''  "components": ['' @ NL
          @ ''    {'' @ NL
          @ ''      "type": "coachView",'' @ NL
          @ ''      "path": "coachView/undefined.xml"'' @ NL
          @ ''    },'' @ NL
          @ ''    {'' @ NL
          @ ''      "type": "coachView",'' @ NL
          @ ''      "path": "coachView/undefined.xml"'' @ NL
          @ ''    }'' @ NL
          @ ''  ]'' @ NL
          @ ''}'')\<close>
proof -
  let ?r = "main ''2026-01-01T00:00:00.000Z'' ''coachview'' [] idless_doc"
  have ev: "exit_code ?r = Some 0
    \<and> extracted ?r = Some [start_metadata ''coachView'' [], start_metadata ''coachView'' []]
    \<and> artifact_paths ?r
       = Some [''coachView/unnamed.xml'', ''coachView/unnamed.json'',
               ''coachView/unnamed.xml'', ''coachView/unnamed.json'', ''index.json'']"
    by (simp add: main_defs sax_defs idless_doc_def handler_defs xml_defs shouldCapture_coachview
        exit_code_def extracted_def artifact_paths_def)
  have pr: "map_sum id (\<lambda>r. promise (fst r)) ?r = Inr (Some (Resolved 2))"
    by (simp add: main_defs sax_defs idless_doc_def handler_defs xml_defs shouldCapture_coachview)
  from ev obtain s where run: "?r = Inr (s, 0)" using exit_code_SomeD by blast
  with ev have cs: "components s = [start_metadata ''coachView'' [], start_metadata ''coachView'' []]"
    by (simp add: extracted_def)
  from pr have res: "\<exists>n. promise s = Some (Resolved n)" unfolding run by simp
  have c: "start_metadata ''coachView'' [] \<in> set (components s)" using cs by simp
  have noid: "''id'' \<notin> fst ` set (md_attributes (start_metadata ''coachView'' []))"
    by (simp add: start_metadata_def)
  note inst = idless_component_paths [OF run c noid]
  from inst have "md_type (start_metadata ''coachView'' []) @ ''/undefined.xml'' \<notin> fst ` set (files s)"
    by blast
  then have "''coachView/undefined.xml'' \<notin> fst ` set (files s)"
    by (simp add: start_metadata_def)
  then have "map_of (rev (files s)) ''coachView/undefined.xml'' = None"
    by (simp add: map_of_eq_None_iff)
  then have none: "artifact ?r ''coachView/undefined.xml'' = None"
    unfolding run by (simp add: artifact_def)
  from inst res have "artifact (Inr (s, 0)) ''index.json''
      = Some (JSON_stringify (index_json ''2026-01-01T00:00:00.000Z'' (components s)))"
    by blast
  then have idx: "artifact ?r ''index.json''
      = Some (JSON_stringify (index_json ''2026-01-01T00:00:00.000Z''
          [start_metadata ''coachView'' [], start_metadata ''coachView'' []]))"
    unfolding run cs .
  from ev none idx show ?thesis unfolding idless_index_text by blast
qed



text \<open>
  An error event touches the console and the promise only, and the other handlers do
  not read these: a scan continued after an error extracts and writes what it would
  without it.
\<close>

lemma handle_capture_view:
  assumes "capture_view s = capture_view t"
  shows "map_sum id capture_view (handle ct cid s e) = map_sum id capture_view (handle ct cid t e)"
proof (cases e)
  case (OpenTag n a)
  with assms show ?thesis
    by (cases "shouldCapture ct cid n a")
       (auto simp: capture_view_def on_opentag_def Let_def)
next
  case (TextEv x)
  with assms show ?thesis by (auto simp: capture_view_def on_text_def)
next
  case (CloseTag x)
  with assms show ?thesis
    by (auto simp: capture_view_def on_closetag_def saveComponent_def Let_def
        split: option.splits sum.splits)
next
  case (ErrorEv m)
  with assms show ?thesis by (auto simp: capture_view_def on_error_def)
next
  case EndEv
  with assms show ?thesis by (auto simp: capture_view_def on_end_def)
qed

lemma feed_capture_view:
  "capture_view s = capture_view t \<Longrightarrow>
   map_sum id capture_view (feed ct cid s es) = map_sum id capture_view (feed ct cid t es)"
proof (induction es arbitrary: s t)
  case Nil
  then show ?case by simp
next
  case (Cons e es)
  from handle_capture_view [OF Cons.prems, of ct cid e]
  have h: "map_sum id capture_view (handle ct cid s e) = map_sum id capture_view (handle ct cid t e)" .
  show ?case
  proof (cases "handle ct cid s e")
    case (Inl x)
    with h have "handle ct cid t e = Inl x" by (cases "handle ct cid t e") auto
    with Inl show ?thesis by simp
  next
    case (Inr s')
    with h obtain t' where t': "handle ct cid t e = Inr t'" and v: "capture_view s' = capture_view t'"
      by (cases "handle ct cid t e") auto
    from Cons.IH [OF v] Inr t' show ?thesis by simp
  qed
qed

lemma on_error_capture_view: "capture_view (on_error s m) = capture_view s"
  by (simp add: capture_view_def on_error_def)


text \<open>
  C4, as stated, fails. In the first run (\<^verbatim>\<open><r><process id="p1"/><b></r>\<close>) a
  component whose capture ended before the parser reports the error has its files
  written, and they stay. In the second run
  (\<^verbatim>\<open><r><b></r><process id="p1"/>\<close>) the events that arrive after the error are
  handled like any others: the component they complete is extracted and its files are
  written. Both runs exit with status 1 and have written two files.
\<close>

theorem malformed_run_leaves_artifacts:
  "exit_code (main ''2026-01-01T00:00:00.000Z'' ''all'' []
      [Open ''r'' [], Open ''process'' [Attribute ''id'' ''p1'' []], Close ''process'',
       Open ''b'' [], Malformed ''Unexpected close tag'', Close ''b'', Close ''r'']) = Some 1
   \<and> artifact_paths (main ''2026-01-01T00:00:00.000Z'' ''all'' []
      [Open ''r'' [], Open ''process'' [Attribute ''id'' ''p1'' []], Close ''process'',
       Open ''b'' [], Malformed ''Unexpected close tag'', Close ''b'', Close ''r''])
     = Some [''process/[object Object].xml'', ''process/[object Object].json'']
   \<and> exit_code (main ''2026-01-01T00:00:00.000Z'' ''all'' []
      [Open ''r'' [], Open ''b'' [], Malformed ''Unexpected close tag'', Close ''b'', Close ''r'',
       Open ''process'' [Attribute ''id'' ''p1'' []], Close ''process'']) = Some 1
   \<and> artifact_paths (main ''2026-01-01T00:00:00.000Z'' ''all'' []
      [Open ''r'' [], Open ''b'' [], Malformed ''Unexpected close tag'', Close ''b'', Close ''r'',
       Open ''process'' [Attribute ''id'' ''p1'' []], Close ''process''])
     = Some [''process/[object Object].xml'', ''process/[object Object].json'']"
  by (simp add: main_defs sax_defs handler_defs xml_defs shouldCapture_def
      exit_code_def artifact_paths_def)

text \<open>
  C4, amended. When the parser reports a well-formedness error before the end of the
  stream, the promise of \<^verbatim>\<open>extract\<close> is rejected with that error, whatever events follow;
  the command line prints it and exits with status 1, and no index is written. The
  error changes nothing else: the components extracted and the files written are those
  of the same events without the error event, so the files of components captured before
  the error remain and the events that arrive after it are handled as usual.
\<close>

theorem malformed_document_rejects:
  assumes ty: "accepts_type ct"
    and pre: "\<forall>e \<in> set pre. \<not> is_signal e"
  shows "\<exists>s0 s t later. extract_components ct (arg_or_null arg) pre = Inr s0
      \<and> main now ct arg (pre @ Malformed msg # post) = Inr (s, 1)
      \<and> promise s = Some (Rejected msg)
      \<and> files s = files s0 @ later
      \<and> ''index.json'' \<notin> fst ` set (files s)
      \<and> console s \<noteq> [] \<and> last (console s) = ErrExtracting msg
      \<and> extract_components ct (arg_or_null arg) (pre @ post) = Inr t
      \<and> files s = files t \<and> components s = components t"
proof -
  let ?cid = "arg_or_null arg"
  from extract_total [OF ty, of ?cid "pre @ Malformed msg # post"]
  obtain s1 where s1: "extract_components ct ?cid (pre @ Malformed msg # post) = Inr s1"
    by blast
  then have f1: "feed ct ?cid initial
      (map (sax_emit extract_options) pre @ ErrorEv msg # map (sax_emit extract_options) post) = Inr s1"
    by (simp add: extract_components_def extract_with_def)
  then obtain s0 where s0: "feed ct ?cid initial (map (sax_emit extract_options) pre) = Inr s0"
    and rest: "feed ct ?cid (on_error s0 msg) (map (sax_emit extract_options) post) = Inr s1"
    by (auto simp: feed_append split: sum.splits)
  have e0: "extract_components ct ?cid pre = Inr s0"
    using s0 by (simp add: extract_components_def extract_with_def)
  have "promise s0 = promise initial" by (rule feed_promise_pending [OF s0 pre])
  then have "promise (on_error s0 msg) = Some (Rejected msg)"
    by (simp add: on_error_def settle_def initial_def)
  from feed_promise_kept [OF rest this] have p1: "promise s1 = Some (Rejected msg)" .
  from feed_files_grow [OF rest] obtain later where later: "files s1 = files s0 @ later"
    by (auto simp: on_error_def)
  have noidx: "''index.json'' \<notin> fst ` set (files s1)"
    by (rule out_inv_no_index [OF extract_out_inv [OF s1]])
  have m: "main now ct arg (pre @ Malformed msg # post)
      = Inr (s1\<lparr>console := console s1 @ [ErrExtracting msg]\<rparr>, 1)"
    using s1 p1 by (simp add: main_def)
  have "map_sum id capture_view (feed ct ?cid (on_error s0 msg) (map (sax_emit extract_options) post))
      = map_sum id capture_view (feed ct ?cid s0 (map (sax_emit extract_options) post))"
    by (rule feed_capture_view [OF on_error_capture_view])
  with rest obtain t where t: "feed ct ?cid s0 (map (sax_emit extract_options) post) = Inr t"
    and v: "capture_view s1 = capture_view t"
    by (cases "feed ct ?cid s0 (map (sax_emit extract_options) post)") auto
  have et: "extract_components ct ?cid (pre @ post) = Inr t"
    using s0 t by (simp add: extract_components_def extract_with_def feed_append)
  from v have same: "files s1 = files t" "components s1 = components t"
    by (simp_all add: capture_view_def)
  show ?thesis
    using e0 m p1 later noidx et same
    by (intro exI [of _ s0] exI [of _ "s1\<lparr>console := console s1 @ [ErrExtracting msg]\<rparr>"]
        exI [of _ t] exI [of _ later]) simp
qed

theorem malformed_document_rejects_witness:
  "exit_code (main ''2026-01-01T00:00:00.000Z'' ''all'' []
        ([Open ''a'' [], Open ''b'' []] @ Malformed ''Unexpected close tag'' # [Close ''b'', Close ''a'']))
     = Some 1
   \<and> artifact_paths (main ''2026-01-01T00:00:00.000Z'' ''all'' []
        ([Open ''a'' [], Open ''b'' []] @ Malformed ''Unexpected close tag'' # [Close ''b'', Close ''a'']))
     = Some []
   \<and> exit_code (main ''2026-01-01T00:00:00.000Z'' ''all'' []
        ([Open ''r'' [], Open ''b'' []] @ Malformed ''Unexpected close tag'' #
         [Close ''b'', Close ''r'', Open ''process'' [Attribute ''id'' ''p1'' []], Close ''process'']))
     = Some 1
   \<and> artifact_paths (main ''2026-01-01T00:00:00.000Z'' ''all'' []
        ([Open ''r'' [], Open ''b'' []] @ Malformed ''Unexpected close tag'' #
         [Close ''b'', Close ''r'', Open ''process'' [Attribute ''id'' ''p1'' []], Close ''process'']))
     = Some [''process/[object Object].xml'', ''process/[object Object].json'']"
proof -
  have ty: "accepts_type ''all''" by (simp add: accepts_type_def)
  have pre1: "\<forall>e \<in> set [Open ''a'' [], Open ''b'' []]. \<not> is_signal e" by simp
  have pre2: "\<forall>e \<in> set [Open ''r'' [], Open ''b'' []]. \<not> is_signal e" by simp
  let ?doc1 = "[Open ''a'' [], Open ''b'' []] @ Malformed ''Unexpected close tag'' # [Close ''b'', Close ''a'']"
  let ?post2 = "[Close ''b'', Close ''r'', Open ''process'' [Attribute ''id'' ''p1'' []], Close ''process'']"
  let ?doc2 = "[Open ''r'' [], Open ''b'' []] @ Malformed ''Unexpected close tag'' # ?post2"
  from malformed_document_rejects [OF ty pre1, of "[]" "''2026-01-01T00:00:00.000Z''"
      "''Unexpected close tag''" "[Close ''b'', Close ''a'']"]
  obtain s t where m1: "main ''2026-01-01T00:00:00.000Z'' ''all'' [] ?doc1 = Inr (s, 1)"
    and t1: "extract_components ''all'' (arg_or_null [])
        ([Open ''a'' [], Open ''b'' []] @ [Close ''b'', Close ''a'']) = Inr t"
    and f1: "files s = files t"
    by blast
  have "map_sum id (\<lambda>s. map fst (files s)) (extract_components ''all'' (arg_or_null [])
        ([Open ''a'' [], Open ''b'' []] @ [Close ''b'', Close ''a''])) = Inr []"
    by (simp add: sax_defs handler_defs shouldCapture_def arg_or_null_def)
  with t1 f1 have a1: "map fst (files s) = []" by simp
  from malformed_document_rejects [OF ty pre2, of "[]" "''2026-01-01T00:00:00.000Z''"
      "''Unexpected close tag''" ?post2]
  obtain s' t' where m2: "main ''2026-01-01T00:00:00.000Z'' ''all'' [] ?doc2 = Inr (s', 1)"
    and t2: "extract_components ''all'' (arg_or_null [])
        ([Open ''r'' [], Open ''b'' []] @ ?post2) = Inr t'"
    and f2: "files s' = files t'"
    by blast
  have "map_sum id (\<lambda>s. map fst (files s)) (extract_components ''all'' (arg_or_null [])
        ([Open ''r'' [], Open ''b'' []] @ ?post2))
      = Inr [''process/[object Object].xml'', ''process/[object Object].json'']"
    by (simp add: sax_defs handler_defs xml_defs shouldCapture_def arg_or_null_def)
  with t2 f2 have a2: "map fst (files s')
      = [''process/[object Object].xml'', ''process/[object Object].json'']"
    by simp
  show ?thesis
    unfolding m1 m2 using a1 a2 by (simp add: exit_code_def artifact_paths_def)
qed

text \<open>
  C5, as stated, fails. For \<^verbatim>\<open><coachView id="A">partial\<close> the parser reports the
  unclosed root element before the end of the stream: the run prints the error, exits
  with status 1 and writes nothing, no inventory either. For
  \<^verbatim>\<open><a/><coachView id="A"><field/>\<close> the stream ends inside the capture without an
  error: after the banner, the console shows the lines of a successful run with no
  component, and no warning.
\<close>

theorem truncated_run_fails_or_is_silent:
  "exit_code (main ''2026-01-01T00:00:00.000Z'' ''coachview'' []
      [Open ''coachView'' [Attribute ''id'' ''A'' []], Text ''partial'',
       Malformed ''Unclosed root tag'', EndOfStream])
     = Some 1
   \<and> artifact_paths (main ''2026-01-01T00:00:00.000Z'' ''coachview'' []
      [Open ''coachView'' [Attribute ''id'' ''A'' []], Text ''partial'',
       Malformed ''Unclosed root tag'', EndOfStream])
     = Some []
   \<and> console_output (main ''2026-01-01T00:00:00.000Z'' ''coachview'' []
      [Open ''coachView'' [Attribute ''id'' ''A'' []], Text ''partial'',
       Malformed ''Unclosed root tag'', EndOfStream])
     = Some [ErrSaxParser ''Unclosed root tag'', ErrExtracting ''Unclosed root tag'']
   \<and> exit_code (main ''2026-01-01T00:00:00.000Z'' ''coachview'' []
      [Open ''a'' [], Close ''a'',
       Open ''coachView'' [Attribute ''id'' ''A'' []], Open ''field'' [], Close ''field'',
       EndOfStream])
     = Some 0
   \<and> artifact_paths (main ''2026-01-01T00:00:00.000Z'' ''coachview'' []
      [Open ''a'' [], Close ''a'',
       Open ''coachView'' [Attribute ''id'' ''A'' []], Open ''field'' [], Close ''field'',
       EndOfStream])
     = Some [''index.json'']
   \<and> console_output (main ''2026-01-01T00:00:00.000Z'' ''coachview'' []
      [Open ''a'' [], Close ''a'',
       Open ''coachView'' [Attribute ''id'' ''A'' []], Open ''field'' [], Close ''field'',
       EndOfStream])
     = Some [LogExtractionComplete 0, LogIndexSaved, LogNextSteps]"
  by (simp add: main_defs sax_defs handler_defs shouldCapture_coachview js_trim_def is_space_def
      console_output_def exit_code_def artifact_paths_def)

text \<open>
  C5, amended. When the stream ends while a capture is active and no error was reported
  before, nothing is written and no component is recorded for the partial fragment,
  which stays in the buffer, and no console line is about it. If the end of the stream
  arrives without an error, the run ends as a success: the promise resolves with the
  number of components completed before, the index is written for exactly those and
  the exit status is 0. If the parser first reports the unclosed element as an error,
  the run fails as a whole: the error is printed, the promise is rejected, the exit
  status is 1 and no index is written.
\<close>

theorem truncated_capture_is_silent:
  assumes pre: "extract_components ct (arg_or_null arg) pre = Inr s0"
    and cap: "capturingContent s0"
    and pending: "promise s0 = None"
  shows "main now ct arg (pre @ [EndOfStream]) =
     Inr (s0\<lparr>files := files s0 @
                [(''index.json'', JSON_stringify (index_json now (components s0)))],
             console := console s0 @
                [LogExtractionComplete (length (components s0)), LogIndexSaved, LogNextSteps],
             promise := Some (Resolved (length (components s0)))\<rparr>, 0)
   \<and> main now ct arg (pre @ [Malformed msg, EndOfStream]) =
     Inr (s0\<lparr>console := console s0 @ [ErrSaxParser msg, ErrExtracting msg],
             promise := Some (Rejected msg)\<rparr>, 1)"
proof -
  from pre have f: "feed ct (arg_or_null arg) initial (map (sax_emit extract_options) pre) = Inr s0"
    by (simp add: extract_components_def extract_with_def)
  then have "extract_components ct (arg_or_null arg) (pre @ [EndOfStream]) = Inr (on_end s0)"
    by (simp add: extract_components_def extract_with_def feed_append)
  then have one: "main now ct arg (pre @ [EndOfStream]) =
     Inr (s0\<lparr>files := files s0 @
                [(''index.json'', JSON_stringify (index_json now (components s0)))],
             console := console s0 @
                [LogExtractionComplete (length (components s0)), LogIndexSaved, LogNextSteps],
             promise := Some (Resolved (length (components s0)))\<rparr>, 0)"
    using pending by (simp add: main_def generateIndex_def on_end_def settle_def)
  from f have "extract_components ct (arg_or_null arg) (pre @ [Malformed msg, EndOfStream])
      = Inr (on_end (on_error s0 msg))"
    by (simp add: extract_components_def extract_with_def feed_append)
  then have two: "main now ct arg (pre @ [Malformed msg, EndOfStream]) =
     Inr (s0\<lparr>console := console s0 @ [ErrSaxParser msg, ErrExtracting msg],
             promise := Some (Rejected msg)\<rparr>, 1)"
    using pending by (simp add: main_def on_end_def on_error_def settle_def)
  from one two show ?thesis by blast
qed

lemma Inr_observed: "map_sum id f r = Inr y \<Longrightarrow> \<exists>s. r = Inr s \<and> f s = y"
  by (cases r) auto

theorem truncated_capture_is_silent_witness:
  "exit_code (main ''2026-01-01T00:00:00.000Z'' ''coachview'' []
      ([Open ''a'' [], Close ''a'',
        Open ''coachView'' [Attribute ''id'' ''A'' []], Open ''field'' [], Close ''field'']
         @ [EndOfStream]))
     = Some 0
   \<and> console_output (main ''2026-01-01T00:00:00.000Z'' ''coachview'' []
      ([Open ''a'' [], Close ''a'',
        Open ''coachView'' [Attribute ''id'' ''A'' []], Open ''field'' [], Close ''field'']
         @ [EndOfStream]))
     = Some [LogExtractionComplete 0, LogIndexSaved, LogNextSteps]
   \<and> artifact_paths (main ''2026-01-01T00:00:00.000Z'' ''coachview'' []
      ([Open ''a'' [], Close ''a'',
        Open ''coachView'' [Attribute ''id'' ''A'' []], Open ''field'' [], Close ''field'']
         @ [EndOfStream]))
     = Some [''index.json'']
   \<and> exit_code (main ''2026-01-01T00:00:00.000Z'' ''coachview'' []
      ([Open ''coachView'' [Attribute ''id'' ''A'' []], Text ''partial'']
         @ [Malformed ''Unclosed root tag'', EndOfStream]))
     = Some 1
   \<and> console_output (main ''2026-01-01T00:00:00.000Z'' ''coachview'' []
      ([Open ''coachView'' [Attribute ''id'' ''A'' []], Text ''partial'']
         @ [Malformed ''Unclosed root tag'', EndOfStream]))
     = Some [ErrSaxParser ''Unclosed root tag'', ErrExtracting ''Unclosed root tag'']
   \<and> artifact_paths (main ''2026-01-01T00:00:00.000Z'' ''coachview'' []
      ([Open ''coachView'' [Attribute ''id'' ''A'' []], Text ''partial'']
         @ [Malformed ''Unclosed root tag'', EndOfStream]))
     = Some []"
proof -
  let ?pre1 = "[Open ''a'' [], Close ''a'',
        Open ''coachView'' [Attribute ''id'' ''A'' []], Open ''field'' [], Close ''field'']"
  let ?pre2 = "[Open ''coachView'' [Attribute ''id'' ''A'' []], Text ''partial'']"
  let ?obs = "\<lambda>s. (capturingContent s, promise s, console s, files s, components s)"
  have "map_sum id ?obs (extract_components ''coachview'' (arg_or_null []) ?pre1)
      = Inr (True, None, [], [], [])"
    by (simp add: sax_defs handler_defs shouldCapture_coachview arg_or_null_def
        js_trim_def is_space_def)
  from Inr_observed [OF this] obtain s1 where
    e1: "extract_components ''coachview'' (arg_or_null []) ?pre1 = Inr s1"
    and o1: "capturingContent s1" "promise s1 = None" "console s1 = []" "files s1 = []"
      "components s1 = []"
    by auto
  have "map_sum id ?obs (extract_components ''coachview'' (arg_or_null []) ?pre2)
      = Inr (True, None, [], [], [])"
    by (simp add: sax_defs handler_defs shouldCapture_coachview arg_or_null_def
        js_trim_def is_space_def)
  from Inr_observed [OF this] obtain s2 where
    e2: "extract_components ''coachview'' (arg_or_null []) ?pre2 = Inr s2"
    and o2: "capturingContent s2" "promise s2 = None" "console s2 = []" "files s2 = []"
      "components s2 = []"
    by auto
  from truncated_capture_is_silent [OF e1 o1(1,2), of "''2026-01-01T00:00:00.000Z''"]
  have r1: "main ''2026-01-01T00:00:00.000Z'' ''coachview'' [] (?pre1 @ [EndOfStream]) =
     Inr (s1\<lparr>files := files s1 @
                [(''index.json'', JSON_stringify (index_json ''2026-01-01T00:00:00.000Z'' (components s1)))],
             console := console s1 @
                [LogExtractionComplete (length (components s1)), LogIndexSaved, LogNextSteps],
             promise := Some (Resolved (length (components s1)))\<rparr>, 0)"
    by blast
  from truncated_capture_is_silent [OF e2 o2(1,2), of "''2026-01-01T00:00:00.000Z''"
      "''Unclosed root tag''"]
  have r2: "main ''2026-01-01T00:00:00.000Z'' ''coachview'' []
        (?pre2 @ [Malformed ''Unclosed root tag'', EndOfStream]) =
     Inr (s2\<lparr>console := console s2 @ [ErrSaxParser ''Unclosed root tag'',
                                        ErrExtracting ''Unclosed root tag''],
             promise := Some (Rejected ''Unclosed root tag'')\<rparr>, 1)"
    by blast
  show ?thesis
    unfolding r1 r2 using o1 o2
    by (simp add: exit_code_def console_output_def artifact_paths_def)
qed

text \<open>
  C6, as stated, fails: the index records the time of the run, so two runs on the same
  document at different times write different index files.
\<close>

theorem rerun_index_differs:
  "artifact (main ''2026-01-01T00:00:00.000Z'' ''coachview'' [] nested_doc) ''index.json''
   \<noteq> artifact (main ''2026-01-01T00:00:01.000Z'' ''coachview'' [] nested_doc) ''index.json''"
  by (simp add: main_defs sax_defs nested_doc_def handler_defs xml_defs shouldCapture_coachview
      artifact_def JSON_stringify_def index_json_def NL_def json_quote_def json_escape_char_def)

lemma no_index_files: "out_inv s \<Longrightarrow> \<forall>f \<in> set (files s). fst f \<noteq> ''index.json''"
  using out_inv_no_index by force

text \<open>
  C6, amended. Two runs on the same document with the same parameters end with the same
  exit status, extract the same components and write the same paths in the same order,
  with the same content in every file but the index; the index of each run is the
  serialisation of its own clock reading and the same components, so the two index files
  are equal when the clock readings are.
\<close>

theorem rerun_same_component_artifacts:
  assumes "main t1 ct arg doc = Inr (s1, code)"
  shows "\<exists>s2. main t2 ct arg doc = Inr (s2, code)
     \<and> components s2 = components s1
     \<and> map fst (files s2) = map fst (files s1)
     \<and> [f \<leftarrow> files s2. fst f \<noteq> ''index.json''] = [f \<leftarrow> files s1. fst f \<noteq> ''index.json'']
     \<and> (\<forall>f \<in> set (files s1). fst f = ''index.json'' \<longrightarrow>
           snd f = JSON_stringify (index_json t1 (components s1)))
     \<and> (\<forall>f \<in> set (files s2). fst f = ''index.json'' \<longrightarrow>
           snd f = JSON_stringify (index_json t2 (components s1)))
     \<and> (t1 = t2 \<longrightarrow> files s2 = files s1)"
  using assms
proof (cases rule: main_cases)
  case (resolved s0 n)
  have no: "\<forall>f \<in> set (files s0). fst f \<noteq> ''index.json''"
    by (rule no_index_files [OF extract_out_inv [OF resolved(1)]])
  then have keep: "[f \<leftarrow> files s0. fst f \<noteq> ''index.json''] = files s0"
    by (simp add: filter_id_conv)
  let ?s2 = "s0\<lparr>files := files s0 @ [(''index.json'', JSON_stringify (index_json t2 (components s0)))],
             console := console s0 @ [LogExtractionComplete n, LogIndexSaved, LogNextSteps]\<rparr>"
  have "main t2 ct arg doc = Inr (?s2, code)"
    using resolved by (simp add: main_def generateIndex_def)
  then show ?thesis
    using resolved keep no by (intro exI [of _ ?s2]) auto
next
  case (rejected s0 m)
  have "\<forall>f \<in> set (files s0). fst f \<noteq> ''index.json''"
    by (rule no_index_files [OF extract_out_inv [OF rejected(1)]])
  moreover have "main t2 ct arg doc = Inr (s1, code)"
    using rejected by (simp add: main_def)
  ultimately show ?thesis
    using rejected by (intro exI [of _ s1]) auto
next
  case pending
  have "\<forall>f \<in> set (files s1). fst f \<noteq> ''index.json''"
    by (rule no_index_files [OF extract_out_inv [OF pending(1)]])
  moreover have "main t2 ct arg doc = Inr (s1, code)"
    using pending by (simp add: main_def)
  ultimately show ?thesis
    by (intro exI [of _ s1]) auto
qed


theorem rerun_same_component_artifacts_witness:
  "exit_code (main ''2026-01-01T00:00:00.000Z'' ''coachview'' [] nested_doc) = Some 0
   \<and> exit_code (main ''2026-01-01T00:00:01.000Z'' ''coachview'' [] nested_doc) = Some 0
   \<and> artifact_paths (main ''2026-01-01T00:00:01.000Z'' ''coachview'' [] nested_doc)
     = artifact_paths (main ''2026-01-01T00:00:00.000Z'' ''coachview'' [] nested_doc)"
proof -
  have "exit_code (main ''2026-01-01T00:00:00.000Z'' ''coachview'' [] nested_doc) = Some 0"
    by (simp add: main_defs sax_defs nested_doc_def handler_defs xml_defs shouldCapture_coachview
        exit_code_def)
  then obtain s1 where
    run: "main ''2026-01-01T00:00:00.000Z'' ''coachview'' [] nested_doc = Inr (s1, 0)"
    using exit_code_SomeD by blast
  from rerun_same_component_artifacts [OF run, of "''2026-01-01T00:00:01.000Z''"]
  obtain s2 where
    again: "main ''2026-01-01T00:00:01.000Z'' ''coachview'' [] nested_doc = Inr (s2, 0)"
    and same: "map fst (files s2) = map fst (files s1)"
    by blast
  show ?thesis
    unfolding run again using same by (simp add: exit_code_def artifact_paths_def)
qed

section \<open>The buffer holds the captured element only\<close>

lemma net_append: "net (xs @ ys) = net xs + net ys"
proof (induction xs)
  case Nil
  then show ?case by simp
next
  case (Cons e xs)
  then show ?case by (cases e) simp_all
qed

lemma inside_append:
  "inside k (xs @ ys) = (case inside k xs of None \<Rightarrow> None | Some j \<Rightarrow> inside j ys)"
proof (induction xs arbitrary: k)
  case Nil
  then show ?case by simp
next
  case (Cons e xs)
  then show ?case by (cases e) simp_all
qed

lemma inside_net: "inside k es = Some j \<Longrightarrow> int j = int k + net es"
proof (induction es arbitrary: k)
  case Nil
  then show ?case by simp
next
  case (Cons e es)
  show ?case
  proof (cases e)
    case (CloseTag t)
    with Cons.prems have k: "k \<noteq> 0" and lv: "inside (k - 1) es = Some j"
      by (auto split: if_splits)
    from Cons.IH [OF lv] k CloseTag show ?thesis by (simp add: of_nat_diff)
  qed (use Cons in \<open>auto dest: Cons.IH\<close>)
qed

lemma feed_snoc:
  "feed ct cid s0 (xs @ [x]) = Inr s \<Longrightarrow>
   \<exists>s'. feed ct cid s0 xs = Inr s' \<and> handle ct cid s' x = Inr s"
  by (auto simp: feed_append split: sum.splits)

lemma feed_take:
  assumes "feed ct cid s0 evs = Inr s"
  shows "\<exists>s'. feed ct cid s0 (take n evs) = Inr s'"
proof -
  have "feed ct cid s0 (take n evs @ drop n evs) = Inr s" using assms by simp
  then show ?thesis unfolding feed_append by (auto split: sum.splits)
qed

lemma capture_inv_idle:
  "\<not> capturingContent s \<Longrightarrow> capturedContent s = [] \<Longrightarrow> capture_inv ct cid evs s"
  by (simp add: capture_inv_def)

lemma capture_inv_start:
  assumes "shouldCapture ct cid n a = Inr True" and "capturingContent s"
    and "capturedContent s = [ItemOpen n a 0]" and "currentDepth s - captureDepth s = 1"
  shows "capture_inv ct cid (xs @ [OpenTag n a]) s"
proof -
  have "xs @ [OpenTag n a] = xs @ OpenTag n a # []
      \<and> shouldCapture ct cid n a = Inr True
      \<and> (\<exists>j. inside 0 [] = Some j)
      \<and> capturedContent s = items_of 0 (OpenTag n a # [])
      \<and> currentDepth s - captureDepth s = net (OpenTag n a # [])"
    using assms by simp
  then have "\<exists>pre name attrs sub. xs @ [OpenTag n a] = pre @ OpenTag name attrs # sub
          \<and> shouldCapture ct cid name attrs = Inr True
          \<and> (\<exists>j. inside 0 sub = Some j)
          \<and> capturedContent s = items_of 0 (OpenTag name attrs # sub)
          \<and> currentDepth s - captureDepth s = net (OpenTag name attrs # sub)"
    by blast
  with assms(2) show ?thesis by (simp add: capture_inv_def)
qed

lemma capture_inv_extend:
  assumes inv: "capture_inv ct cid xs s'" and cap': "capturingContent s'" and cap: "capturingContent s"
    and buf: "capturedContent s = capturedContent s' @ items_of (currentDepth s' - captureDepth s') [x]"
    and dep: "currentDepth s - captureDepth s = currentDepth s' - captureDepth s' + net [x]"
    and nested: "\<And>t. x = CloseTag t \<Longrightarrow> currentDepth s' - 1 \<noteq> captureDepth s'"
  shows "capture_inv ct cid (xs @ [x]) s"
proof -
  from inv cap' obtain pre name attrs sub j where
      split: "xs = pre @ OpenTag name attrs # sub"
      and match: "shouldCapture ct cid name attrs = Inr True"
      and ins: "inside 0 sub = Some j"
      and buf': "capturedContent s' = items_of 0 (OpenTag name attrs # sub)"
      and dep': "currentDepth s' - captureDepth s' = net (OpenTag name attrs # sub)"
    unfolding capture_inv_def by auto
  have split': "xs @ [x] = pre @ OpenTag name attrs # (sub @ [x])"
    using split by simp
  have "items_of 0 ((OpenTag name attrs # sub) @ [x])
        = items_of 0 (OpenTag name attrs # sub) @ items_of (0 + net (OpenTag name attrs # sub)) [x]"
    by (rule items_of_append)
  then have items: "capturedContent s = items_of 0 (OpenTag name attrs # (sub @ [x]))"
    using buf buf' dep' by simp
  have "net ((OpenTag name attrs # sub) @ [x]) = net (OpenTag name attrs # sub) + net [x]"
    by (rule net_append)
  then have nets: "currentDepth s - captureDepth s = net (OpenTag name attrs # (sub @ [x]))"
    using dep dep' by simp
  have j: "int j = currentDepth s' - captureDepth s' - 1"
    using inside_net [OF ins] dep' by simp
  have "\<exists>j'. inside j [x] = Some j'"
  proof (cases x)
    case (CloseTag t)
    from nested [OF this] j have "j \<noteq> 0" by auto
    with CloseTag show ?thesis by simp
  qed simp_all
  then have ins': "\<exists>j'. inside 0 (sub @ [x]) = Some j'"
    using ins by (simp add: inside_append)
  from split' match items nets ins'
  have "\<exists>pre name attrs sub. xs @ [x] = pre @ OpenTag name attrs # sub
          \<and> shouldCapture ct cid name attrs = Inr True
          \<and> (\<exists>j. inside 0 sub = Some j)
          \<and> capturedContent s = items_of 0 (OpenTag name attrs # sub)
          \<and> currentDepth s - captureDepth s = net (OpenTag name attrs # sub)"
    by blast
  with cap show ?thesis by (simp add: capture_inv_def)
qed

lemma handle_capture_inv:
  assumes inv: "capture_inv ct cid xs s'" and step: "handle ct cid s' x = Inr s"
  shows "capture_inv ct cid (xs @ [x]) s"
  using step
proof (cases rule: handle_cases)
  case (open_inside n a)
  show ?thesis
    by (rule capture_inv_extend [OF inv open_inside(2)]) (simp_all add: open_inside)
next
  case (open_start n a)
  show ?thesis unfolding open_start(1)
    by (rule capture_inv_start [OF open_start(3)]) (simp_all add: open_start(4))
next
  case (open_skip n a)
  with inv show ?thesis by (simp add: capture_inv_def)
next
  case (chars t)
  show ?thesis
  proof (cases "capturingContent s'")
    case True
    show ?thesis
      by (rule capture_inv_extend [OF inv True]) (simp_all add: chars True on_text_def)
  next
    case False
    with inv chars show ?thesis by (simp add: capture_inv_def on_text_def)
  qed
next
  case (close_idle t)
  with inv show ?thesis by (simp add: capture_inv_def)
next
  case (close_nested t)
  show ?thesis
    by (rule capture_inv_extend [OF inv close_nested(2)]) (simp_all add: close_nested)
next
  case (close_final t md xml)
  then show ?thesis by (simp add: capture_inv_def)
next
  case (failure m)
  show ?thesis
  proof (cases "capturingContent s'")
    case True
    show ?thesis
      by (rule capture_inv_extend [OF inv True]) (simp_all add: failure True on_error_def)
  next
    case False
    with inv failure show ?thesis by (simp add: capture_inv_def on_error_def)
  qed
next
  case finish
  show ?thesis
  proof (cases "capturingContent s'")
    case True
    show ?thesis
      by (rule capture_inv_extend [OF inv True]) (simp_all add: finish True on_end_def)
  next
    case False
    with inv finish show ?thesis by (simp add: capture_inv_def on_end_def)
  qed
qed

lemma buffer_invariant:
  "feed ct cid initial evs = Inr s \<Longrightarrow> capture_inv ct cid evs s"
proof (induction evs arbitrary: s rule: rev_induct)
  case Nil
  then have "s = initial" by simp
  then show ?case by (simp add: capture_inv_def initial_def)
next
  case (snoc x xs)
  from feed_snoc [OF snoc.prems] obtain s' where
    run: "feed ct cid initial xs = Inr s'" and step: "handle ct cid s' x = Inr s"
    by blast
  show ?case by (rule handle_capture_inv [OF snoc.IH [OF run] step])
qed

lemma length_items_of: "length (items_of d es) \<le> length es"
proof (induction es arbitrary: d)
  case Nil
  then show ?case by simp
next
  case (Cons e es)
  show ?case using Cons [of "d + 1"] Cons [of d] Cons [of "d - 1"] by (cases e) (simp_all add: le_SucI)
qed

lemma capture_session_ends:
  assumes idle: "\<not> capturingContent s0"
    and match: "shouldCapture ct cid name attrs = Inr True"
    and body: "level 0 body = Some 0"
  shows "\<exists>s. feed ct cid s0 (OpenTag name attrs # body @ [CloseTag t]) = Inr s
     \<and> \<not> capturingContent s \<and> capturedContent s = []"
proof -
  let ?s1 = "s0\<lparr>capturingContent := True, captureDepth := currentDepth s0,
            capturedContent := [ItemOpen name attrs 0],
            componentMetadata := Some (start_metadata name attrs),
            currentDepth := currentDepth s0 + 1\<rparr>"
  have start: "on_opentag ct cid s0 name attrs = Inr ?s1"
    by (rule on_opentag_start [OF idle match])
  let ?s2 = "?s1\<lparr>capturedContent := ItemOpen name attrs 0 # items_of 1 body\<rparr>"
  have "feed ct cid ?s1 body =
        Inr (?s1\<lparr>capturedContent := capturedContent ?s1 @ items_of (1 + int 0) body,
               currentDepth := captureDepth ?s1 + 1 + int 0\<rparr>)"
    by (rule capture_body [OF body]) simp_all
  then have mid: "feed ct cid ?s1 body = Inr ?s2" by simp
  have "indent_after 0 (ItemOpen name attrs 0 # items_of 1 body @ [ItemClose t 0]) = Some 0"
    using indent_after_items [OF body, of 1 1] by (simp add: indent_after_append)
  then obtain xml where xml:
    "reconstructXML (ItemOpen name attrs 0 # items_of 1 body @ [ItemClose t 0]) = Inr xml"
    unfolding reconstructXML_def using reconstruct_loop_ok by blast
  have "\<exists>s. on_closetag ?s2 t = Inr s \<and> \<not> capturingContent s \<and> capturedContent s = []"
    using on_closetag_final [of ?s2 "start_metadata name attrs" t xml] xml by simp
  then obtain sf where cl: "on_closetag ?s2 t = Inr sf"
    and fin: "\<not> capturingContent sf" "capturedContent sf = []"
    by blast
  have "feed ct cid s0 (OpenTag name attrs # body @ [CloseTag t]) = Inr sf"
    using start mid cl by (simp add: feed_append)
  with fin show ?thesis by blast
qed

text \<open>
  C9. At every point of a scan the capture buffer is empty unless a capture is active, and
  while one is active it holds exactly the entries for the events read since the open tag
  of the matched element that started it, all of which lie inside that element, which is
  still open: never more entries than the part of the matched element read so far has
  events, whatever came before it in the document. Events outside a capture are not
  kept. The buffer is emptied when the capture ends: once the events read are those of a
  matched element found outside a capture, from its open tag through its well-nested
  content to its close tag, no capture is active and the buffer is empty again. The state
  holds no other copy of the document.
\<close>

theorem buffer_bounded_by_captured_subtree:
  assumes "feed ct cid initial evs = Inr s_end"
  shows "\<forall>n \<le> length evs. \<exists>s. feed ct cid initial (take n evs) = Inr s
     \<and> (\<not> capturingContent s \<longrightarrow> capturedContent s = [])
     \<and> (capturingContent s \<longrightarrow>
          (\<exists>pre name attrs sub. take n evs = pre @ OpenTag name attrs # sub
             \<and> shouldCapture ct cid name attrs = Inr True
             \<and> (\<exists>j. inside 0 sub = Some j)
             \<and> capturedContent s = items_of 0 (OpenTag name attrs # sub)
             \<and> length (capturedContent s) \<le> 1 + length sub))
     \<and> (\<forall>pre s0 name attrs body t.
            take n evs = pre @ OpenTag name attrs # body @ [CloseTag t]
          \<and> feed ct cid initial pre = Inr s0 \<and> \<not> capturingContent s0
          \<and> shouldCapture ct cid name attrs = Inr True
          \<and> level 0 body = Some 0
          \<longrightarrow> \<not> capturingContent s \<and> capturedContent s = [])"
proof (intro allI impI)
  fix n
  from feed_take [OF assms, of n] obtain s where s: "feed ct cid initial (take n evs) = Inr s"
    by blast
  have a: "capturingContent s \<longrightarrow>
          (\<exists>pre name attrs sub. take n evs = pre @ OpenTag name attrs # sub
             \<and> shouldCapture ct cid name attrs = Inr True
             \<and> (\<exists>j. inside 0 sub = Some j)
             \<and> capturedContent s = items_of 0 (OpenTag name attrs # sub)
             \<and> length (capturedContent s) \<le> 1 + length sub)"
  proof
    assume "capturingContent s"
    with buffer_invariant [OF s] obtain pre name attrs sub where
      *: "take n evs = pre @ OpenTag name attrs # sub" "shouldCapture ct cid name attrs = Inr True"
         "\<exists>j. inside 0 sub = Some j"
         "capturedContent s = items_of 0 (OpenTag name attrs # sub)"
      unfolding capture_inv_def by auto
    have "length (capturedContent s) \<le> 1 + length sub"
      using length_items_of [of 1 sub] * by simp
    with * show "\<exists>pre name attrs sub. take n evs = pre @ OpenTag name attrs # sub
             \<and> shouldCapture ct cid name attrs = Inr True
             \<and> (\<exists>j. inside 0 sub = Some j)
             \<and> capturedContent s = items_of 0 (OpenTag name attrs # sub)
             \<and> length (capturedContent s) \<le> 1 + length sub"
      by blast
  qed
  have b: "\<not> capturingContent s \<longrightarrow> capturedContent s = []"
    using buffer_invariant [OF s] by (simp add: capture_inv_def)
  have c: "\<forall>pre s0 name attrs body t.
            take n evs = pre @ OpenTag name attrs # body @ [CloseTag t]
          \<and> feed ct cid initial pre = Inr s0 \<and> \<not> capturingContent s0
          \<and> shouldCapture ct cid name attrs = Inr True
          \<and> level 0 body = Some 0
          \<longrightarrow> \<not> capturingContent s \<and> capturedContent s = []"
  proof (intro allI impI, elim conjE)
    fix pre s0 name attrs body t
    assume split: "take n evs = pre @ OpenTag name attrs # body @ [CloseTag t]"
      and pre: "feed ct cid initial pre = Inr s0" and idle: "\<not> capturingContent s0"
      and match: "shouldCapture ct cid name attrs = Inr True"
      and body: "level 0 body = Some 0"
    from s split pre have "feed ct cid s0 (OpenTag name attrs # body @ [CloseTag t]) = Inr s"
      by (simp add: feed_append)
    with capture_session_ends [OF idle match body, of t]
    show "\<not> capturingContent s \<and> capturedContent s = []" by auto
  qed
  from s a b c show "\<exists>s. feed ct cid initial (take n evs) = Inr s
     \<and> (\<not> capturingContent s \<longrightarrow> capturedContent s = [])
     \<and> (capturingContent s \<longrightarrow>
          (\<exists>pre name attrs sub. take n evs = pre @ OpenTag name attrs # sub
             \<and> shouldCapture ct cid name attrs = Inr True
             \<and> (\<exists>j. inside 0 sub = Some j)
             \<and> capturedContent s = items_of 0 (OpenTag name attrs # sub)
             \<and> length (capturedContent s) \<le> 1 + length sub))
     \<and> (\<forall>pre s0 name attrs body t.
            take n evs = pre @ OpenTag name attrs # body @ [CloseTag t]
          \<and> feed ct cid initial pre = Inr s0 \<and> \<not> capturingContent s0
          \<and> shouldCapture ct cid name attrs = Inr True
          \<and> level 0 body = Some 0
          \<longrightarrow> \<not> capturingContent s \<and> capturedContent s = [])"
    by blast
qed


theorem buffer_bounded_by_captured_subtree_witness:
  "(\<exists>s. feed ''coachview'' None initial
        (take 6 [OpenTag ''doc'' [], OpenTag ''big'' [], TextEv ''filler'', CloseTag ''big'',
                 OpenTag ''coachView'' [], TextEv ''x'', CloseTag ''coachView'',
                 OpenTag ''after'' [], TextEv ''more'']) = Inr s
        \<and> capturingContent s \<and> length (capturedContent s) \<le> 2)
   \<and> (\<exists>s. feed ''coachview'' None initial
        (take 7 [OpenTag ''doc'' [], OpenTag ''big'' [], TextEv ''filler'', CloseTag ''big'',
                 OpenTag ''coachView'' [], TextEv ''x'', CloseTag ''coachView'',
                 OpenTag ''after'' [], TextEv ''more'']) = Inr s
        \<and> \<not> capturingContent s \<and> capturedContent s = [])"
proof -
  let ?evs = "[OpenTag ''doc'' [], OpenTag ''big'' [], TextEv ''filler'', CloseTag ''big'',
                 OpenTag ''coachView'' [], TextEv ''x'', CloseTag ''coachView'',
                 OpenTag ''after'' [], TextEv ''more'']"
  have ty: "accepts_type ''coachview''"
    by (simp add: accepts_type_def toLowerCase_coachview)
  from feed_total [OF good_initial ty, of None ?evs]
  obtain s_end where run: "feed ''coachview'' None initial ?evs = Inr s_end" by blast
  note inst = buffer_bounded_by_captured_subtree [OF run, rule_format]
  have during: "\<exists>s. feed ''coachview'' None initial (take 6 ?evs) = Inr s
        \<and> capturingContent s \<and> length (capturedContent s) \<le> 2"
  proof -
    have "6 \<le> length ?evs" by simp
    from inst [OF this] obtain s where s: "feed ''coachview'' None initial (take 6 ?evs) = Inr s"
      and bound: "capturingContent s \<longrightarrow>
          (\<exists>pre name attrs sub. take 6 ?evs = pre @ OpenTag name attrs # sub
             \<and> shouldCapture ''coachview'' None name attrs = Inr True
             \<and> (\<exists>j. inside 0 sub = Some j)
             \<and> capturedContent s = items_of 0 (OpenTag name attrs # sub)
             \<and> length (capturedContent s) \<le> 1 + length sub)"
      by blast
    have "map_sum id capturingContent (feed ''coachview'' None initial (take 6 ?evs)) = Inr True"
      by (simp add: on_opentag_def on_closetag_def on_text_def shouldCapture_coachview initial_def)
    with s have cap: "capturingContent s" by simp
    with bound obtain pre name attrs sub where
      split: "take 6 ?evs = pre @ OpenTag name attrs # sub"
      and match: "shouldCapture ''coachview'' None name attrs = Inr True"
      and len: "length (capturedContent s) \<le> 1 + length sub"
      by blast
    from match have name: "name = ''coachView''" by (simp add: shouldCapture_coachview)
    from split name have "length sub \<le> 1"
      by (auto simp: Cons_eq_append_conv)
    with len cap s show ?thesis by auto
  qed
  have after: "\<exists>s. feed ''coachview'' None initial (take 7 ?evs) = Inr s
        \<and> \<not> capturingContent s \<and> capturedContent s = []"
  proof -
    have "7 \<le> length ?evs" by simp
    from inst [OF this] obtain s where s: "feed ''coachview'' None initial (take 7 ?evs) = Inr s"
      and ends: "\<forall>pre s0 name attrs body t.
            take 7 ?evs = pre @ OpenTag name attrs # body @ [CloseTag t]
          \<and> feed ''coachview'' None initial pre = Inr s0 \<and> \<not> capturingContent s0
          \<and> shouldCapture ''coachview'' None name attrs = Inr True
          \<and> level 0 body = Some 0
          \<longrightarrow> \<not> capturingContent s \<and> capturedContent s = []"
      by blast
    have pre: "feed ''coachview'' None initial
        [OpenTag ''doc'' [], OpenTag ''big'' [], TextEv ''filler'', CloseTag ''big'']
      = Inr (initial\<lparr>currentDepth := 1\<rparr>)"
      by (simp add: on_opentag_def on_closetag_def on_text_def shouldCapture_coachview initial_def)
    have "take 7 ?evs = [OpenTag ''doc'' [], OpenTag ''big'' [], TextEv ''filler'', CloseTag ''big'']
        @ OpenTag ''coachView'' [] # [TextEv ''x''] @ [CloseTag ''coachView'']
      \<and> feed ''coachview'' None initial
            [OpenTag ''doc'' [], OpenTag ''big'' [], TextEv ''filler'', CloseTag ''big'']
          = Inr (initial\<lparr>currentDepth := 1\<rparr>)
      \<and> \<not> capturingContent (initial\<lparr>currentDepth := 1\<rparr>)
      \<and> shouldCapture ''coachview'' None ''coachView'' [] = Inr True
      \<and> level 0 [TextEv ''x''] = Some 0"
      using pre by (simp add: shouldCapture_coachview initial_def)
    with ends have "\<not> capturingContent s \<and> capturedContent s = []" by blast
    with s show ?thesis by blast
  qed
  from during after show ?thesis by blast
qed

end
